theory Spec2Isabelle
  imports Complex_Main
begin

section \<open>Therapy session state machine (state.py, core/types.py)\<close>

text \<open>
  \<^verbatim>\<open>TherapyState\<close> is the closed enumeration of core/types.py. Triggers are the
  string constants of class \<^verbatim>\<open>StateTrigger\<close>; \<^verbatim>\<open>transition\<close> accepts any string.
\<close>

datatype TherapyState =
    IDLE | CONNECTING | READY | RUNNING | PAUSED | STOPPING | ERROR
  | LOW_BATTERY | CRITICAL_BATTERY | CONNECTION_LOST | PHONE_DISCONNECTED

definition StateTrigger_CONNECTED :: string where
  "StateTrigger_CONNECTED = ''CONNECTED''"
definition StateTrigger_DISCONNECTED :: string where
  "StateTrigger_DISCONNECTED = ''DISCONNECTED''"
definition StateTrigger_START_SESSION :: string where
  "StateTrigger_START_SESSION = ''START_SESSION''"
definition StateTrigger_PAUSE_SESSION :: string where
  "StateTrigger_PAUSE_SESSION = ''PAUSE_SESSION''"
definition StateTrigger_RESUME_SESSION :: string where
  "StateTrigger_RESUME_SESSION = ''RESUME_SESSION''"
definition StateTrigger_STOP_SESSION :: string where
  "StateTrigger_STOP_SESSION = ''STOP_SESSION''"
definition StateTrigger_STOPPED :: string where
  "StateTrigger_STOPPED = ''STOPPED''"
definition StateTrigger_ERROR :: string where
  "StateTrigger_ERROR = ''ERROR''"
definition StateTrigger_EMERGENCY_STOP :: string where
  "StateTrigger_EMERGENCY_STOP = ''EMERGENCY_STOP''"

record StateTransition =
  from_state :: TherapyState
  to_state :: TherapyState
  trigger :: string
  metadata :: "(string \<times> string) list"

text \<open>
  An observer is called with the transition; it either returns (\<open>None\<close>) or raises an
  \<^verbatim>\<open>Exception\<close> (\<open>Some msg\<close>), which \<^verbatim>\<open>transition\<close> catches and prints.
\<close>

type_synonym callback = "StateTransition \<Rightarrow> string option"

record TherapyStateMachine =
  state :: TherapyState
  callbacks :: "callback list"

definition get_current_state :: "TherapyStateMachine \<Rightarrow> TherapyState" where
  "get_current_state m = state m"

text \<open>The \<^verbatim>\<open>if\<close>/\<^verbatim>\<open>elif\<close> chain of \<^verbatim>\<open>_determine_next_state\<close>, in the source's order.\<close>

definition determine_next_state :: "TherapyStateMachine \<Rightarrow> string \<Rightarrow> TherapyState" where
  "determine_next_state m trg =
     (let current = state m in
      if trg = StateTrigger_CONNECTED then
        (if current = IDLE then READY else current)
      else if trg = StateTrigger_DISCONNECTED then CONNECTION_LOST
      else if trg = StateTrigger_START_SESSION then
        (if current = READY \<or> current = IDLE then RUNNING else current)
      else if trg = StateTrigger_PAUSE_SESSION then
        (if current = RUNNING then PAUSED else current)
      else if trg = StateTrigger_RESUME_SESSION then
        (if current = PAUSED then RUNNING else current)
      else if trg = StateTrigger_STOP_SESSION then
        (if current = RUNNING \<or> current = PAUSED then STOPPING else current)
      else if trg = StateTrigger_STOPPED then
        (if current = STOPPING then IDLE else current)
      else if trg = StateTrigger_ERROR then ERROR
      else if trg = StateTrigger_EMERGENCY_STOP then ERROR
      else current)"

text \<open>
  What one call of \<^verbatim>\<open>transition\<close> does: the returned bool, the machine afterwards, the
  transitions handed to observers (one per registered observer, in registration order)
  and the lines printed for observers that raised.
\<close>

record transition_result =
  returned :: bool
  machine :: TherapyStateMachine
  delivered :: "StateTransition list"
  printed :: "string list"

definition notify :: "callback list \<Rightarrow> StateTransition \<Rightarrow> string list" where
  "notify cbs t =
     concat (map (\<lambda>cb. case cb t of None \<Rightarrow> []
                         | Some e \<Rightarrow> [''[ERROR] State callback failed: '' @ e]) cbs)"

definition transition ::
  "TherapyStateMachine \<Rightarrow> string \<Rightarrow> (string \<times> string) list option \<Rightarrow> transition_result" where
  "transition m trg md =
     (let old_state = state m;
          new_state = determine_next_state m trg in
      if new_state = old_state then
        \<lparr>returned = True, machine = m, delivered = [], printed = []\<rparr>
      else
        (let t = \<lparr>from_state = old_state, to_state = new_state, trigger = trg,
                  metadata = (case md of None \<Rightarrow> [] | Some d \<Rightarrow> d)\<rparr> in
         \<lparr>returned = True, machine = m\<lparr>state := new_state\<rparr>,
          delivered = map (\<lambda>_. t) (callbacks m), printed = notify (callbacks m) t\<rparr>))"

text \<open>
  The transition table as the specification words it: CONNECTED: IDLE to READY;
  START\_SESSION: IDLE or READY to RUNNING; PAUSE\_SESSION: RUNNING to PAUSED;
  RESUME\_SESSION: PAUSED to RUNNING; STOP\_SESSION: RUNNING or PAUSED to STOPPING;
  STOPPED: STOPPING to IDLE; DISCONNECTED: any to CONNECTION\_LOST; ERROR and
  EMERGENCY\_STOP: any to ERROR. \<open>spec_table s trg\<close> is the target state of the entry
  for the pair, if there is one.
\<close>

definition spec_table :: "TherapyState \<Rightarrow> string \<Rightarrow> TherapyState option" where
  "spec_table s trg =
     (if trg = ''CONNECTED'' \<and> s = IDLE then Some READY
      else if trg = ''START_SESSION'' \<and> (s = IDLE \<or> s = READY) then Some RUNNING
      else if trg = ''PAUSE_SESSION'' \<and> s = RUNNING then Some PAUSED
      else if trg = ''RESUME_SESSION'' \<and> s = PAUSED then Some RUNNING
      else if trg = ''STOP_SESSION'' \<and> (s = RUNNING \<or> s = PAUSED) then Some STOPPING
      else if trg = ''STOPPED'' \<and> s = STOPPING then Some IDLE
      else if trg = ''DISCONNECTED'' then Some CONNECTION_LOST
      else if trg = ''ERROR'' \<or> trg = ''EMERGENCY_STOP'' then Some ERROR
      else None)"

section \<open>Pattern generator (therapy.py)\<close>

datatype error = ValueError | IndexError

record Pattern =
  left_sequence :: "int list"
  right_sequence :: "int list"
  timing_ms :: "real list"
  burst_duration_ms :: real
  inter_burst_interval_ms :: real

text \<open>\<^verbatim>\<open>Pattern.__init__\<close>: both length checks raise \<^verbatim>\<open>ValueError\<close>. Numbers that are
  Python floats (milliseconds, seconds, percentages) are modelled as reals.\<close>

definition Pattern_init ::
  "int list \<Rightarrow> int list \<Rightarrow> real list \<Rightarrow> real \<Rightarrow> real \<Rightarrow> error + Pattern" where
  "Pattern_init l r t b i =
     (if length l \<noteq> length r then Inl ValueError
      else if length t \<noteq> length l then Inl ValueError
      else Inr \<lparr>left_sequence = l, right_sequence = r, timing_ms = t,
                burst_duration_ms = b, inter_burst_interval_ms = i\<rparr>)"

definition Pattern_len :: "Pattern \<Rightarrow> nat" where
  "Pattern_len p = length (left_sequence p)"

text \<open>Python list indexing: a negative index counts from the end, out of range raises.\<close>

definition py_get :: "'a list \<Rightarrow> int \<Rightarrow> error + 'a" where
  "py_get xs i =
     (if 0 \<le> i \<and> i < int (length xs) then Inr (xs ! nat i)
      else if i < 0 \<and> - int (length xs) \<le> i then Inr (xs ! nat (int (length xs) + i))
      else Inl IndexError)"

definition get_finger_pair :: "Pattern \<Rightarrow> int \<Rightarrow> error + (int \<times> int)" where
  "get_finger_pair p i =
     (case py_get (left_sequence p) i of
        Inl e \<Rightarrow> Inl e
      | Inr l \<Rightarrow> (case py_get (right_sequence p) i of
                    Inl e \<Rightarrow> Inl e
                  | Inr r \<Rightarrow> Inr (l, r)))"

text \<open>
  \<^verbatim>\<open>random.Random(seed)\<close> is the standard library's generator. It is modelled by the raw
  draws it will deliver, whatever the seed: \<open>rng_randbelow n\<close> reduces the next draw below
  \<open>n\<close>, \<open>rng_random\<close> maps it into \<open>[0, 1)\<close> with 53 bits, \<open>rng_uniform a b\<close> is the
  library's \<^verbatim>\<open>a + (b - a) * random()\<close>, and \<open>rng_shuffle\<close> is the library's loop
  \<^verbatim>\<open>for i in reversed(range(1, len(x))): j = randbelow(i + 1); x[i], x[j] = x[j], x[i]\<close>.
  An exhausted list delivers zeros.
\<close>

type_synonym rng = "nat list"

definition next_raw :: "rng \<Rightarrow> nat \<times> rng" where
  "next_raw g = (case g of [] \<Rightarrow> (0, []) | x # xs \<Rightarrow> (x, xs))"

definition rng_randbelow :: "nat \<Rightarrow> rng \<Rightarrow> nat \<times> rng" where
  "rng_randbelow n g = (case next_raw g of (x, g') \<Rightarrow> (x mod n, g'))"

definition rng_random :: "rng \<Rightarrow> real \<times> rng" where
  "rng_random g = (case next_raw g of (x, g') \<Rightarrow> (real (x mod 2 ^ 53) / 2 ^ 53, g'))"

definition rng_uniform :: "real \<Rightarrow> real \<Rightarrow> rng \<Rightarrow> real \<times> rng" where
  "rng_uniform a b g = (case rng_random g of (r, g') \<Rightarrow> (a + (b - a) * r, g'))"

fun shuffle_from :: "nat \<Rightarrow> 'a list \<Rightarrow> rng \<Rightarrow> 'a list \<times> rng" where
  "shuffle_from 0 xs g = (xs, g)"
| "shuffle_from (Suc k) xs g =
     (case rng_randbelow (Suc k + 1) g of
        (j, g') \<Rightarrow> shuffle_from k (xs[Suc k := xs ! j, j := xs ! Suc k]) g')"

definition rng_shuffle :: "'a list \<Rightarrow> rng \<Rightarrow> 'a list \<times> rng" where
  "rng_shuffle xs g = shuffle_from (length xs - 1) xs g"

text \<open>\<^verbatim>\<open>list(range(num_fingers))\<close>; empty when \<open>num_fingers \<le> 0\<close>.\<close>

definition range_list :: "int \<Rightarrow> int list" where
  "range_list n = map int [0 ..< nat n]"

text \<open>The timing loop shared, word for word, by the three generators:
  \<^verbatim>\<open>for _ in range(num_fingers)\<close> with the jitter branch on \<^verbatim>\<open>jitter_percent > 0\<close>.\<close>

fun timing_loop :: "nat \<Rightarrow> real \<Rightarrow> real \<Rightarrow> real \<Rightarrow> rng \<Rightarrow> real list \<times> rng" where
  "timing_loop 0 ibi ja jp g = ([], g)"
| "timing_loop (Suc k) ibi ja jp g =
     (if jp > 0 then
        (case rng_uniform (- ja) ja g of
           (jitter, g1) \<Rightarrow>
             (case timing_loop k ibi ja jp g1 of
                (rest, g2) \<Rightarrow> (max 0 (ibi + jitter) # rest, g2)))
      else
        (case timing_loop k ibi ja jp g of
           (rest, g2) \<Rightarrow> (ibi # rest, g2)))"

definition generate_random_permutation ::
  "int \<Rightarrow> real \<Rightarrow> real \<Rightarrow> real \<Rightarrow> bool \<Rightarrow> rng \<Rightarrow> error + Pattern" where
  "generate_random_permutation num_fingers time_on_ms time_off_ms jitter_percent mirror_pattern g =
     (let cycle_duration_ms = time_on_ms + time_off_ms;
          inter_burst = 4 * cycle_duration_ms;
          (left, g1) = rng_shuffle (range_list num_fingers) g;
          (right, g2) = (if mirror_pattern then (left, g1)
                         else rng_shuffle (range_list num_fingers) g1);
          jitter_amount = cycle_duration_ms * (jitter_percent / 100) / 2;
          (timing, g3) = timing_loop (nat num_fingers) inter_burst jitter_amount jitter_percent g2
      in Pattern_init left right timing time_on_ms inter_burst)"

definition generate_sequential_pattern ::
  "int \<Rightarrow> real \<Rightarrow> real \<Rightarrow> real \<Rightarrow> bool \<Rightarrow> bool \<Rightarrow> rng \<Rightarrow> error + Pattern" where
  "generate_sequential_pattern num_fingers time_on_ms time_off_ms jitter_percent mirror_pattern
       reverse g =
     (let cycle_duration_ms = time_on_ms + time_off_ms;
          inter_burst = 4 * cycle_duration_ms;
          sequence = (if reverse then rev (range_list num_fingers) else range_list num_fingers);
          jitter_amount = cycle_duration_ms * (jitter_percent / 100) / 2;
          (timing, g1) = timing_loop (nat num_fingers) inter_burst jitter_amount jitter_percent g
      in Pattern_init sequence sequence timing time_on_ms inter_burst)"

definition generate_mirrored_pattern ::
  "int \<Rightarrow> real \<Rightarrow> real \<Rightarrow> real \<Rightarrow> bool \<Rightarrow> rng \<Rightarrow> error + Pattern" where
  "generate_mirrored_pattern num_fingers time_on_ms time_off_ms jitter_percent randomize g =
     (let cycle_duration_ms = time_on_ms + time_off_ms;
          inter_burst = 4 * cycle_duration_ms;
          (sequence, g1) = (if randomize then rng_shuffle (range_list num_fingers) g
                            else (range_list num_fingers, g));
          jitter_amount = cycle_duration_ms * (jitter_percent / 100) / 2;
          (timing, g2) = timing_loop (nat num_fingers) inter_burst jitter_amount jitter_percent g1
      in Pattern_init sequence sequence timing time_on_ms inter_burst)"

text \<open>The invariant the specification states for a Pattern generated for \<open>n\<close> fingers.\<close>

definition pattern_wf :: "int \<Rightarrow> Pattern \<Rightarrow> bool" where
  "pattern_wf n p \<longleftrightarrow>
     length (left_sequence p) = length (right_sequence p)
   \<and> length (timing_ms p) = length (left_sequence p)
   \<and> list_all (\<lambda>x. 0 \<le> x \<and> x < n) (left_sequence p)
   \<and> list_all (\<lambda>x. 0 \<le> x \<and> x < n) (right_sequence p)"

text \<open>
  The per-step interval as the specification words it: \<open>max(0, base + u)\<close> for a draw
  \<open>u\<close> uniform in \<open>[-J, +J]\<close>, that is \<open>u = -J + 2 J r\<close> for the generator's unit draw \<open>r\<close>.
  \<open>unit_draws k g\<close> are the next \<open>k\<close> unit draws of the generator.
\<close>

definition jittered_interval :: "real \<Rightarrow> real \<Rightarrow> real \<Rightarrow> real" where
  "jittered_interval base J r = max 0 (base + (- J + (J - (- J)) * r))"

fun unit_draws :: "nat \<Rightarrow> rng \<Rightarrow> real list" where
  "unit_draws 0 g = []"
| "unit_draws (Suc k) g = (case rng_random g of (r, g') \<Rightarrow> r # unit_draws k g')"

definition spec_base_interval :: "real \<Rightarrow> real \<Rightarrow> real" where
  "spec_base_interval time_on_ms time_off_ms = 4 * (time_on_ms + time_off_ms)"

definition spec_jitter_amount :: "real \<Rightarrow> real \<Rightarrow> real \<Rightarrow> real" where
  "spec_jitter_amount time_on_ms time_off_ms jitter_percent =
     spec_base_interval time_on_ms time_off_ms * jitter_percent / 200"

definition timing_of :: "error + Pattern \<Rightarrow> real list" where
  "timing_of res = (case res of Inl e \<Rightarrow> [] | Inr p \<Rightarrow> timing_ms p)"

text \<open>
  The generator state a generator's timing loop starts from, that is the state its
  shuffles leave: one shuffle, or two without mirroring, in
  \<^verbatim>\<open>generate_random_permutation\<close>; one shuffle, or none without randomizing, in
  \<^verbatim>\<open>generate_mirrored_pattern\<close>; \<^verbatim>\<open>generate_sequential_pattern\<close> draws nothing before.
\<close>

definition rng_after_permutation :: "int \<Rightarrow> bool \<Rightarrow> rng \<Rightarrow> rng" where
  "rng_after_permutation n mirror_pattern g =
     (if mirror_pattern then snd (rng_shuffle (range_list n) g)
      else snd (rng_shuffle (range_list n) (snd (rng_shuffle (range_list n) g))))"

definition rng_after_mirrored :: "int \<Rightarrow> bool \<Rightarrow> rng \<Rightarrow> rng" where
  "rng_after_mirrored n randomize g =
     (if randomize then snd (rng_shuffle (range_list n) g) else g)"

text \<open>
  The timing rule with the base interval and the half-width \<open>J\<close> left open: without jitter
  every step has the base interval, with jitter step \<open>i\<close> has \<open>max(0, base + u\<^sub>i)\<close> where
  \<open>u\<^sub>i\<close> is the uniform draw in \<open>[-J, +J]\<close> made from the generator's \<open>i\<close>-th unit draw.
\<close>

definition timing_law :: "int \<Rightarrow> real \<Rightarrow> real \<Rightarrow> real \<Rightarrow> rng \<Rightarrow> real list \<Rightarrow> bool" where
  "timing_law n base J jitter_percent g ts \<longleftrightarrow>
     (if jitter_percent > 0 then ts = map (jittered_interval base J) (unit_draws (nat n) g)
      else ts = replicate (nat n) base)"

section \<open>Therapy execution engine (therapy.py)\<close>

text \<open>
  The engine's fields carry the source's names without the leading underscore;
  \<^verbatim>\<open>is_running()\<close> and \<^verbatim>\<open>is_paused()\<close> return the fields of the same name. The four
  callbacks are opaque to the engine: the model keeps whether each is installed and
  records every call the engine makes as an event. Callbacks are taken to return
  normally, as the ones app.py installs do (they catch their own exceptions).
\<close>

record PatternConfig =
  pattern_type :: string
  cfg_time_on_ms :: real
  cfg_time_off_ms :: real
  cfg_jitter_percent :: real
  cfg_num_fingers :: int
  cfg_mirror_pattern :: bool

datatype event =
    SendCommand string "(string \<times> int) list"
  | Activate int int
  | Deactivate int
  | CycleComplete int

record TherapyEngine =
  is_running :: bool
  is_paused :: bool
  should_stop :: bool
  session_start_time :: "real option"
  session_duration_sec :: "real option"
  pattern_config :: "PatternConfig option"
  current_pattern :: "Pattern option"
  pattern_index :: int
  activation_start_time :: "real option"
  waiting_for_interval :: bool
  interval_start_time :: "real option"
  cycles_completed :: int
  total_activations :: int
  timing_drift_ms :: real
  send_command_callback :: bool
  activate_callback :: bool
  deactivate_callback :: bool
  on_cycle_complete :: bool

definition TherapyEngine_init :: TherapyEngine where
  "TherapyEngine_init =
     \<lparr>is_running = False, is_paused = False, should_stop = False,
      session_start_time = None, session_duration_sec = None, pattern_config = None,
      current_pattern = None, pattern_index = 0, activation_start_time = None,
      waiting_for_interval = False, interval_start_time = None,
      cycles_completed = 0, total_activations = 0, timing_drift_ms = 0,
      send_command_callback = False, activate_callback = False,
      deactivate_callback = False, on_cycle_complete = False\<rparr>"

definition set_send_command_callback :: "bool \<Rightarrow> TherapyEngine \<Rightarrow> TherapyEngine" where
  "set_send_command_callback cb e = e\<lparr>send_command_callback := cb\<rparr>"

definition set_activate_callback :: "bool \<Rightarrow> TherapyEngine \<Rightarrow> TherapyEngine" where
  "set_activate_callback cb e = e\<lparr>activate_callback := cb\<rparr>"

definition set_deactivate_callback :: "bool \<Rightarrow> TherapyEngine \<Rightarrow> TherapyEngine" where
  "set_deactivate_callback cb e = e\<lparr>deactivate_callback := cb\<rparr>"

definition set_cycle_complete_callback :: "bool \<Rightarrow> TherapyEngine \<Rightarrow> TherapyEngine" where
  "set_cycle_complete_callback cb e = e\<lparr>on_cycle_complete := cb\<rparr>"

text \<open>
  What a call leaves behind: the callback invocations it made, in order, the exception
  it raised (if any), and the engine afterwards. An exception keeps the assignments
  made before it.
\<close>

type_synonym outcome = "event list \<times> error option \<times> TherapyEngine"

text \<open>
  \<^verbatim>\<open>_generate_next_pattern\<close>. Each generator is called without a seed, so it makes a fresh
  \<^verbatim>\<open>random.Random\<close>; \<open>g\<close> stands for the draws of that generator. \<open>None\<close> for the
  configuration is the empty dictionary of \<^verbatim>\<open>__init__\<close>, for which every
  \<^verbatim>\<open>config.get\<close> returns its default.
\<close>

definition generate_next_pattern :: "rng \<Rightarrow> TherapyEngine \<Rightarrow> error option \<times> TherapyEngine" where
  "generate_next_pattern g e =
     (let generated =
        (case pattern_config e of
           None \<Rightarrow> generate_random_permutation 5 100 67 23.5 True g
         | Some c \<Rightarrow>
             if pattern_type c = ''rndp'' then
               generate_random_permutation (cfg_num_fingers c) (cfg_time_on_ms c)
                 (cfg_time_off_ms c) (cfg_jitter_percent c) (cfg_mirror_pattern c) g
             else if pattern_type c = ''sequential'' then
               generate_sequential_pattern (cfg_num_fingers c) (cfg_time_on_ms c)
                 (cfg_time_off_ms c) (cfg_jitter_percent c) (cfg_mirror_pattern c) False g
             else if pattern_type c = ''mirrored'' then
               generate_mirrored_pattern (cfg_num_fingers c) (cfg_time_on_ms c)
                 (cfg_time_off_ms c) (cfg_jitter_percent c) True g
             else Inl ValueError)
      in case generated of
           Inl err \<Rightarrow> (Some err, e)
         | Inr p \<Rightarrow>
             (None, e\<lparr>current_pattern := Some p, pattern_index := 0,
                       activation_start_time := None, waiting_for_interval := False,
                       interval_start_time := None\<rparr>))"

text \<open>\<^verbatim>\<open>start_session\<close>; \<open>now\<close> is the reading of \<^verbatim>\<open>time.monotonic()\<close>.\<close>

definition start_session ::
  "real \<Rightarrow> string \<Rightarrow> real \<Rightarrow> real \<Rightarrow> real \<Rightarrow> int \<Rightarrow> bool \<Rightarrow> real \<Rightarrow> rng \<Rightarrow> TherapyEngine
     \<Rightarrow> outcome" where
  "start_session duration_sec ptype time_on time_off jitter num_fingers mirror now g e =
     (case generate_next_pattern g
             (e\<lparr>is_running := True, is_paused := False, should_stop := False,
                cycles_completed := 0, total_activations := 0, timing_drift_ms := 0,
                session_start_time := Some now, session_duration_sec := Some duration_sec,
                pattern_config := Some \<lparr>pattern_type = ptype, cfg_time_on_ms = time_on,
                   cfg_time_off_ms = time_off, cfg_jitter_percent = jitter,
                   cfg_num_fingers = num_fingers, cfg_mirror_pattern = mirror\<rparr>\<rparr>) of
        (err, e') \<Rightarrow> ([], err, e'))"

definition pause :: "TherapyEngine \<Rightarrow> TherapyEngine" where
  "pause e = e\<lparr>is_paused := True\<rparr>"

definition resume :: "TherapyEngine \<Rightarrow> TherapyEngine" where
  "resume e = e\<lparr>is_paused := False\<rparr>"

definition stop :: "TherapyEngine \<Rightarrow> TherapyEngine" where
  "stop e = e\<lparr>should_stop := True, is_running := False\<rparr>"

text \<open>Python truth of an optional number: \<^verbatim>\<open>None\<close> and zero are false.\<close>

definition truthy :: "real option \<Rightarrow> bool" where
  "truthy x = (case x of None \<Rightarrow> False | Some v \<Rightarrow> v \<noteq> 0)"

text \<open>
  \<^verbatim>\<open>_execute_pattern_step\<close> for the current pattern \<open>p\<close>. \<open>t_step\<close> is the clock reading
  of the branch taken, \<open>t_interval\<close> the later reading stored as the start of the
  inter-burst interval.
\<close>

definition execute_pattern_step ::
  "Pattern \<Rightarrow> real \<Rightarrow> real \<Rightarrow> rng \<Rightarrow> TherapyEngine \<Rightarrow> outcome" where
  "execute_pattern_step p t_step t_interval g e =
     (if pattern_index e \<ge> int (Pattern_len p) then
        (let e1 = e\<lparr>cycles_completed := cycles_completed e + 1\<rparr>;
             evs = (if on_cycle_complete e1 then [CycleComplete (cycles_completed e1)] else [])
         in case generate_next_pattern g e1 of (err, e2) \<Rightarrow> (evs, err, e2))
      else if waiting_for_interval e then
        (if truthy (interval_start_time e) then
           (case py_get (timing_ms p) (pattern_index e - 1) of
              Inl err \<Rightarrow> ([], Some err, e)
            | Inr required_interval \<Rightarrow>
                if (t_step - the (interval_start_time e)) * 1000 \<ge> required_interval then
                  ([], None, e\<lparr>waiting_for_interval := False, interval_start_time := None\<rparr>)
                else ([], None, e))
         else ([], None, e))
      else
        (case activation_start_time e of
           None \<Rightarrow>
             (case get_finger_pair p (pattern_index e) of
                Inl err \<Rightarrow> ([], Some err, e)
              | Inr (left_finger, right_finger) \<Rightarrow>
                  ((if send_command_callback e then
                      [SendCommand ''EXECUTE_BUZZ''
                         [(''left_finger'', left_finger), (''right_finger'', right_finger),
                          (''amplitude'', 100)]]
                    else [])
                   @ (if activate_callback e then
                        [Activate left_finger 100, Activate right_finger 100]
                      else []),
                   None,
                   e\<lparr>activation_start_time := Some t_step,
                     total_activations := total_activations e + 2\<rparr>))
         | Some started \<Rightarrow>
             if (t_step - started) * 1000 \<ge> burst_duration_ms p then
               (case get_finger_pair p (pattern_index e) of
                  Inl err \<Rightarrow> ([], Some err, e)
                | Inr (left_finger, right_finger) \<Rightarrow>
                    ((if deactivate_callback e then
                        [Deactivate left_finger, Deactivate right_finger]
                      else []),
                     None,
                     e\<lparr>activation_start_time := None, waiting_for_interval := True,
                       interval_start_time := Some t_interval,
                       pattern_index := pattern_index e + 1\<rparr>))
             else ([], None, e)))"

text \<open>
  \<^verbatim>\<open>update\<close>. \<open>t_session\<close> is the clock reading of the session-timeout check. The guard
  \<^verbatim>\<open>if self._session_start_time and self._session_duration_sec\<close> is a Python truth
  test of two numbers. \<^verbatim>\<open>if self._current_pattern\<close> is the truth of an object that
  defines \<^verbatim>\<open>__len__\<close>: false for \<^verbatim>\<open>None\<close> and for a pattern of length zero.
\<close>

definition update :: "real \<Rightarrow> real \<Rightarrow> real \<Rightarrow> rng \<Rightarrow> TherapyEngine \<Rightarrow> outcome" where
  "update t_session t_step t_interval g e =
     (if \<not> is_running e then ([], None, e)
      else if is_paused e then ([], None, e)
      else if should_stop e then ([], None, e\<lparr>is_running := False\<rparr>)
      else if truthy (session_start_time e) \<and> truthy (session_duration_sec e)
              \<and> t_session - the (session_start_time e) \<ge> the (session_duration_sec e)
        then ([], None, stop e)
      else (case current_pattern e of
              None \<Rightarrow> ([], None, e)
            | Some p \<Rightarrow>
                if Pattern_len p = 0 then ([], None, e)
                else execute_pattern_step p t_step t_interval g e))"

text \<open>Executions: any sequence of calls, each with the clock readings and draws it sees.\<close>

datatype engine_call =
    StartSession real string real real real int bool real rng
  | Update real real real rng
  | Pause
  | Resume
  | Stop

fun apply_call :: "engine_call \<Rightarrow> TherapyEngine \<Rightarrow> outcome" where
  "apply_call (StartSession d ptype ton toff jp nf mirror now g) e =
     start_session d ptype ton toff jp nf mirror now g e"
| "apply_call (Update t1 t2 t3 g) e = update t1 t2 t3 g e"
| "apply_call Pause e = ([], None, pause e)"
| "apply_call Resume e = ([], None, resume e)"
| "apply_call Stop e = ([], None, stop e)"

text \<open>\<open>run\<close> returns the callback invocations of each call, call by call, and the final
  engine. An exception goes to the caller, who may go on calling.\<close>

fun run :: "engine_call list \<Rightarrow> TherapyEngine \<Rightarrow> event list list \<times> TherapyEngine" where
  "run [] e = ([], e)"
| "run (c # cs) e =
     (case apply_call c e of
        (evs, err, e') \<Rightarrow> (case run cs e' of (rest, e'') \<Rightarrow> (evs # rest, e'')))"

text \<open>
  The activate/deactivate discipline on a trace. A burst is opened by the call that
  invokes \<^verbatim>\<open>activate\<close>; \<open>pending\<close> holds the actuators activated in the current burst
  and not yet deactivated. \<open>consume\<close> fails at a \<^verbatim>\<open>deactivate\<close> of an actuator that is
  not pending.
\<close>

fun is_activate :: "event \<Rightarrow> bool" where
  "is_activate (Activate i a) = True"
| "is_activate _ = False"

fun consume :: "event list \<Rightarrow> int list \<Rightarrow> int list option" where
  "consume [] pending = Some pending"
| "consume (Activate i a # es) pending = consume es (i # pending)"
| "consume (Deactivate i # es) pending =
     (if i \<in> set pending then consume es (remove1 i pending) else None)"
| "consume (SendCommand c d # es) pending = consume es pending"
| "consume (CycleComplete n # es) pending = consume es pending"

fun bursts_matched :: "int list \<Rightarrow> event list list \<Rightarrow> bool" where
  "bursts_matched pending [] = True"
| "bursts_matched pending (evs # rest) =
     (case consume evs (if list_ex is_activate evs then [] else pending) of
        None \<Rightarrow> False
      | Some pending' \<Rightarrow> bursts_matched pending' rest)"

definition engine_with :: "bool \<Rightarrow> bool \<Rightarrow> bool \<Rightarrow> bool \<Rightarrow> TherapyEngine" where
  "engine_with send_cb activate_cb deactivate_cb cycle_cb =
     set_cycle_complete_callback cycle_cb
       (set_deactivate_callback deactivate_cb
          (set_activate_callback activate_cb
             (set_send_command_callback send_cb TherapyEngine_init)))"

text \<open>
  The invariant behind the discipline: while an activation is in flight and a
  \<^verbatim>\<open>deactivate\<close> callback is installed, the pending actuators are exactly the
  finger pair at the cursor of the current pattern.
\<close>

definition burst_inv :: "TherapyEngine \<Rightarrow> int list \<Rightarrow> bool" where
  "burst_inv e pending \<longleftrightarrow>
     (deactivate_callback e \<longrightarrow> activate_callback e)
   \<and> (\<forall>t p l r. deactivate_callback e \<and> activation_start_time e = Some t
          \<and> current_pattern e = Some p \<and> get_finger_pair p (pattern_index e) = Inr (l, r)
        \<longrightarrow> pending = [r, l])"

text \<open>
  A concrete execution used below: a session of one finger, sequential, no jitter,
  started at clock 10, ticked at clock 11 (the burst begins) and at clock 12 (the burst
  of 100 ms is over). \<open>started_engine\<close> is the engine right after \<^verbatim>\<open>start_session\<close>.
\<close>

definition one_burst_calls :: "engine_call list" where
  "one_burst_calls =
     [StartSession 60 ''sequential'' 100 67 0 1 True 10 [], Update 11 11 11 [], Update 12 12 12 []]"

definition one_finger_pattern :: Pattern where
  "one_finger_pattern =
     \<lparr>left_sequence = [0], right_sequence = [0], timing_ms = [668],
      burst_duration_ms = 100, inter_burst_interval_ms = 668\<rparr>"

definition one_finger_config :: PatternConfig where
  "one_finger_config =
     \<lparr>pattern_type = ''sequential'', cfg_time_on_ms = 100, cfg_time_off_ms = 67,
      cfg_jitter_percent = 0, cfg_num_fingers = 1, cfg_mirror_pattern = True\<rparr>"

definition started_engine :: "real \<Rightarrow> bool \<Rightarrow> bool \<Rightarrow> TherapyEngine" where
  "started_engine d a de =
     \<lparr>is_running = True, is_paused = False, should_stop = False,
      session_start_time = Some 10, session_duration_sec = Some d,
      pattern_config = Some one_finger_config,
      current_pattern = Some one_finger_pattern, pattern_index = 0,
      activation_start_time = None,
      waiting_for_interval = False, interval_start_time = None,
      cycles_completed = 0, total_activations = 0, timing_drift_ms = 0,
      send_command_callback = False, activate_callback = a,
      deactivate_callback = de, on_cycle_complete = False\<rparr>"

section \<open>Synchronization protocol (sync.py)\<close>

text \<open>
  Text is modelled over the 8-bit characters, read as the code points below 256. In
  this section the codec calls (\<^verbatim>\<open>encode('utf-8')\<close>, \<^verbatim>\<open>decode('utf-8')\<close>) are not
  modelled: a function that returns bytes is modelled up to the text it encodes, one
  that takes bytes from the text decoded from them (undecodable bytes make
  \<^verbatim>\<open>SyncCommand.deserialize\<close> raise \<^verbatim>\<open>ValueError\<close> as well). The bytes are modelled
  where the framing of ble.py reads them.

  The \<^verbatim>\<open>Enum\<close> class of core/types.py wraps a value and compares by value, and
  \<^verbatim>\<open>SyncCommandType(s)\<close> wraps any string \<open>s\<close>; the six members are the instances
  created in core/types.py.
\<close>

datatype SyncCommandType = SyncCommandType (enum_value: string)

definition SYNC_ADJ :: SyncCommandType where
  "SYNC_ADJ = SyncCommandType ''SYNC_ADJ''"
definition SYNC_ADJ_START :: SyncCommandType where
  "SYNC_ADJ_START = SyncCommandType ''SYNC_ADJ_START''"
definition EXECUTE_BUZZ :: SyncCommandType where
  "EXECUTE_BUZZ = SyncCommandType ''EXECUTE_BUZZ''"
definition BUZZ_COMPLETE :: SyncCommandType where
  "BUZZ_COMPLETE = SyncCommandType ''BUZZ_COMPLETE''"
definition FIRST_SYNC :: SyncCommandType where
  "FIRST_SYNC = SyncCommandType ''FIRST_SYNC''"
definition ACK_SYNC_ADJ :: SyncCommandType where
  "ACK_SYNC_ADJ = SyncCommandType ''ACK_SYNC_ADJ''"

definition command_tokens :: "SyncCommandType list" where
  "command_tokens =
     [SYNC_ADJ, SYNC_ADJ_START, EXECUTE_BUZZ, BUZZ_COMPLETE, FIRST_SYNC, ACK_SYNC_ADJ]"

text \<open>Data values are the integers and strings the protocol carries; keys are strings.
  A dictionary is the list of its items in insertion order.\<close>

datatype pyval = PInt int | PStr string

type_synonym pydict = "(string \<times> pyval) list"

record SyncCommand =
  sequence_id :: int
  timestamp :: int
  command_type :: SyncCommandType
  data :: pydict

subsection \<open>Python string primitives\<close>

definition digit_char :: "nat \<Rightarrow> char" where
  "digit_char n = ''0123456789'' ! n"

definition is_digit :: "char \<Rightarrow> bool" where
  "is_digit c \<longleftrightarrow> c \<in> set ''0123456789''"

definition digit_val :: "char \<Rightarrow> nat" where
  "digit_val c = of_char c - 48"

text \<open>\<^verbatim>\<open>str(n)\<close> for an integer: decimal, most significant digit first.\<close>

function str_nat :: "nat \<Rightarrow> string" where
  "str_nat n = (if n < 10 then [digit_char n] else str_nat (n div 10) @ [digit_char (n mod 10)])"
  by pat_completeness auto
termination
  by (relation "measure id") auto

declare str_nat.simps [simp del]

definition str_int :: "int \<Rightarrow> string" where
  "str_int i = (if i < 0 then CHR ''-'' # str_nat (nat (- i)) else str_nat (nat i))"

fun str_val :: "pyval \<Rightarrow> string" where
  "str_val (PInt i) = str_int i"
| "str_val (PStr s) = s"

text \<open>The characters below 256 for which \<^verbatim>\<open>str.isspace\<close> holds; \<^verbatim>\<open>str.strip()\<close>
  removes them from both ends.\<close>

definition is_space :: "char \<Rightarrow> bool" where
  "is_space c \<longleftrightarrow>
     c \<in> set [CHR 0x09, CHR 0x0A, CHR 0x0B, CHR 0x0C, CHR 0x0D, CHR 0x1C, CHR 0x1D,
               CHR 0x1E, CHR 0x1F, CHR 0x20, CHR 0x85, CHR 0xA0]"

definition strip :: "string \<Rightarrow> string" where
  "strip s = rev (dropWhile is_space (rev (dropWhile is_space s)))"

text \<open>\<^verbatim>\<open>str.rstrip()\<close> removes them from the right end only.\<close>

definition rstrip :: "string \<Rightarrow> string" where
  "rstrip s = rev (dropWhile is_space (rev s))"

text \<open>
  The blanks that \<^verbatim>\<open>int()\<close> skips around a number are fewer: among the characters
  below 256 it does not skip the separators 0x1C to 0x1F, so \<^verbatim>\<open>int('\x1c5')\<close> raises
  \<^verbatim>\<open>ValueError\<close> where \<^verbatim>\<open>'\x1c5'.strip()\<close> is \<^verbatim>\<open>'5'\<close>.
\<close>

definition is_int_space :: "char \<Rightarrow> bool" where
  "is_int_space c \<longleftrightarrow>
     c \<in> set [CHR 0x09, CHR 0x0A, CHR 0x0B, CHR 0x0C, CHR 0x0D, CHR 0x20, CHR 0x85, CHR 0xA0]"

definition int_strip :: "string \<Rightarrow> string" where
  "int_strip s = rev (dropWhile is_int_space (rev (dropWhile is_int_space s)))"

text \<open>
  \<^verbatim>\<open>int(s)\<close> for a string: surrounding blanks are skipped, one sign is allowed, then
  decimal digits, where single underscores may separate digits. \<open>None\<close> is
  \<^verbatim>\<open>ValueError\<close>.
\<close>

fun parse_digits :: "nat \<Rightarrow> string \<Rightarrow> nat option" where
  "parse_digits acc [] = Some acc"
| "parse_digits acc [c] = (if is_digit c then Some (acc * 10 + digit_val c) else None)"
| "parse_digits acc (c # d # ds) =
     (if is_digit c then parse_digits (acc * 10 + digit_val c) (d # ds)
      else if c = CHR ''_'' \<and> is_digit d then parse_digits (acc * 10 + digit_val d) ds
      else None)"

definition parse_decimal :: "string \<Rightarrow> nat option" where
  "parse_decimal s =
     (case s of [] \<Rightarrow> None
      | c # cs \<Rightarrow> if is_digit c then parse_digits (digit_val c) cs else None)"

definition py_int :: "string \<Rightarrow> int option" where
  "py_int s =
     (case int_strip s of
        [] \<Rightarrow> None
      | c # cs \<Rightarrow>
          if c = CHR ''-'' then map_option (\<lambda>n. - int n) (parse_decimal cs)
          else if c = CHR ''+'' then map_option int (parse_decimal cs)
          else map_option int (parse_decimal (c # cs)))"

text \<open>\<^verbatim>\<open>sep.join(parts)\<close> and \<^verbatim>\<open>s.split(sep, maxsplit)\<close> for a one-character separator;
  \<^verbatim>\<open>s.split(sep)\<close> is the split without a bound.\<close>

fun join :: "char \<Rightarrow> string list \<Rightarrow> string" where
  "join sep [] = []"
| "join sep [x] = x"
| "join sep (x # y # ys) = x @ sep # join sep (y # ys)"

fun split_max :: "char \<Rightarrow> nat \<Rightarrow> string \<Rightarrow> string list" where
  "split_max sep 0 s = [s]"
| "split_max sep (Suc k) s =
     (case dropWhile (\<lambda>c. c \<noteq> sep) s of
        [] \<Rightarrow> [s]
      | _ # rest \<Rightarrow> takeWhile (\<lambda>c. c \<noteq> sep) s # split_max sep k rest)"

definition split_on :: "char \<Rightarrow> string \<Rightarrow> string list" where
  "split_on sep s = split_max sep (length s) s"

text \<open>The number of separators in a text.\<close>

definition count_sep :: "char \<Rightarrow> string \<Rightarrow> nat" where
  "count_sep sep s = length (filter (\<lambda>c. c = sep) s)"

text \<open>\<^verbatim>\<open>d[key] = value\<close> on a dictionary kept in insertion order.\<close>

fun dict_set :: "pydict \<Rightarrow> string \<Rightarrow> pyval \<Rightarrow> pydict" where
  "dict_set [] k v = [(k, v)]"
| "dict_set ((k', v') # d) k v =
     (if k' = k then (k, v) # d else (k', v') # dict_set d k v)"

subsection \<open>Serialization\<close>

definition serialize_data :: "pydict \<Rightarrow> string" where
  "serialize_data d =
     (if d = [] then []
      else join (CHR ''|'') (concat (map (\<lambda>(key, v). [key, str_val v]) d)))"

text \<open>The \<^verbatim>\<open>try: value = int(value) except ValueError: pass\<close> of \<^verbatim>\<open>_deserialize_data\<close>.\<close>

definition coerce :: "string \<Rightarrow> pyval" where
  "coerce v = (case py_int v of Some n \<Rightarrow> PInt n | None \<Rightarrow> PStr v)"

fun pairs_loop :: "string list \<Rightarrow> pydict \<Rightarrow> pydict" where
  "pairs_loop (key # v # rest) d = pairs_loop rest (dict_set d key (coerce v))"
| "pairs_loop _ d = d"

definition deserialize_data :: "string \<Rightarrow> error + pydict" where
  "deserialize_data data_str =
     (if data_str = [] then Inr []
      else (let parts = split_on (CHR ''|'') data_str in
            if length parts mod 2 \<noteq> 0 then Inl ValueError
            else Inr (pairs_loop parts [])))"

definition serialize :: "SyncCommand \<Rightarrow> string" where
  "serialize x =
     join (CHR '':'')
       ([enum_value (command_type x), str_int (sequence_id x), str_int (timestamp x)]
        @ (if data x \<noteq> [] then [serialize_data (data x)] else []))
     @ [CHR 0x0A]"

definition deserialize :: "string \<Rightarrow> error + SyncCommand" where
  "deserialize text =
     (let message = strip text;
          parts = split_max (CHR '':'') 3 message in
      if length parts < 3 then Inl ValueError
      else
        (case py_int (parts ! 1) of
           None \<Rightarrow> Inl ValueError
         | Some seq \<Rightarrow>
             (case py_int (parts ! 2) of
                None \<Rightarrow> Inl ValueError
              | Some ts \<Rightarrow>
                  (case (if length parts = 4 then deserialize_data (parts ! 3) else Inr []) of
                     Inl e \<Rightarrow> Inl ValueError
                   | Inr data_dict \<Rightarrow>
                       Inr \<lparr>sequence_id = seq, timestamp = ts,
                            command_type = SyncCommandType (parts ! 0),
                            data = data_dict\<rparr>))))"

text \<open>\<^verbatim>\<open>get_precise_time\<close>: \<^verbatim>\<open>int(time.monotonic() * 1_000_000)\<close> truncates towards zero.\<close>

definition get_precise_time :: "real \<Rightarrow> int" where
  "get_precise_time now =
     (if now * 1000000 \<ge> 0 then \<lfloor>now * 1000000\<rfloor> else \<lceil>now * 1000000\<rceil>)"

text \<open>
  The connection object handed to \<^verbatim>\<open>send_execute_buzz\<close>: it has a \<^verbatim>\<open>write\<close> method
  or, failing that, a \<^verbatim>\<open>send\<close> method; the model records what each was called with.
\<close>

record sync_connection =
  has_write :: bool
  written :: "string list"
  sent :: "string list"

definition send_execute_buzz ::
  "sync_connection \<Rightarrow> int \<Rightarrow> int \<Rightarrow> int \<Rightarrow> real \<Rightarrow> sync_connection" where
  "send_execute_buzz connection seq finger amplitude now =
     (let cmd = \<lparr>sequence_id = seq, timestamp = get_precise_time now,
                 command_type = EXECUTE_BUZZ,
                 data = [(''finger'', PInt finger), (''amplitude'', PInt amplitude)]\<rparr> in
      if has_write connection then connection\<lparr>written := written connection @ [serialize cmd]\<rparr>
      else connection\<lparr>sent := sent connection @ [serialize cmd]\<rparr>)"

text \<open>
  The wire format as the specification words it:
  \<^verbatim>\<open><TYPE>:<sequence_id>:<timestamp_us>[:<k1>|<v1>|<k2>|<v2>...]\<close>, the bracketed
  part present when there is data.
\<close>

fun spec_pairs :: "pydict \<Rightarrow> string" where
  "spec_pairs [] = []"
| "spec_pairs [(k, v)] = k @ ''|'' @ str_val v"
| "spec_pairs ((k, v) # kv # rest) = k @ ''|'' @ str_val v @ ''|'' @ spec_pairs (kv # rest)"

definition spec_wire_format :: "SyncCommand \<Rightarrow> string" where
  "spec_wire_format x =
     enum_value (command_type x) @ '':'' @ str_int (sequence_id x) @ '':'' @ str_int (timestamp x)
     @ (if data x = [] then [] else '':'' @ spec_pairs (data x))"

definition EOT :: char where
  "EOT = CHR 0x04"

text \<open>
  The round trip as the specification states it: the command comes back equal to the one
  sent, except that a data value whose string form parses as an integer comes back as
  that integer. An integer value is its own expectation; a string value is expected back
  as the integer \<^verbatim>\<open>int()\<close> reads from it, or unchanged when \<^verbatim>\<open>int()\<close> rejects it.
\<close>

fun expected_value :: "pyval \<Rightarrow> pyval" where
  "expected_value (PInt i) = PInt i"
| "expected_value (PStr s) = (case py_int s of Some n \<Rightarrow> PInt n | None \<Rightarrow> PStr s)"

definition roundtrip_expected :: "SyncCommand \<Rightarrow> SyncCommand" where
  "roundtrip_expected x = x\<lparr>data := map (\<lambda>(k, v). (k, expected_value v)) (data x)\<rparr>"

definition no_separators :: "SyncCommand \<Rightarrow> bool" where
  "no_separators x \<longleftrightarrow>
     list_all (\<lambda>(k, v). CHR '':'' \<notin> set k \<and> CHR ''|'' \<notin> set k
                 \<and> CHR '':'' \<notin> set (str_val v) \<and> CHR ''|'' \<notin> set (str_val v)) (data x)"

definition ends_with_space :: "string \<Rightarrow> bool" where
  "ends_with_space s \<longleftrightarrow> s \<noteq> [] \<and> is_space (last s)"

text \<open>The two format errors of \<^verbatim>\<open>deserialize\<close>, as tests on the decoded text: fewer
  than three colon-separated fields, and a fourth field that is not empty and splits
  into an odd number of pipe-delimited tokens.\<close>

definition too_few_fields :: "string \<Rightarrow> bool" where
  "too_few_fields text \<longleftrightarrow> length (split_on (CHR '':'') text) < 3"

definition odd_data_tokens :: "string \<Rightarrow> bool" where
  "odd_data_tokens text \<longleftrightarrow>
     (let parts = split_max (CHR '':'') 3 (strip text) in
      length parts = 4 \<and> parts ! 3 \<noteq> [] \<and> odd (length (split_on (CHR ''|'') (parts ! 3))))"

definition example_command :: SyncCommand where
  "example_command =
     \<lparr>sequence_id = 42, timestamp = 1000000, command_type = EXECUTE_BUZZ,
      data = [(''finger'', PInt 0), (''amplitude'', PInt 50)]\<rparr>"

definition padded_integer_command :: SyncCommand where
  "padded_integer_command =
     \<lparr>sequence_id = 1, timestamp = 2, command_type = EXECUTE_BUZZ,
      data = [(''k'', PStr ''5 '')]\<rparr>"

definition trailing_space_command :: SyncCommand where
  "trailing_space_command =
     \<lparr>sequence_id = 1, timestamp = 2, command_type = EXECUTE_BUZZ,
      data = [(''k'', PStr ''v '')]\<rparr>"

section \<open>Message framing (ble.py)\<close>

text \<open>
  A connection of \<^verbatim>\<open>BLE._connections\<close>: whether the link is up, the text of what
  was written to its UART (one entry per \<^verbatim>\<open>uart.write\<close>), and whether
  \<^verbatim>\<open>uart.write\<close> raises. The
  \<^verbatim>\<open>last_seen\<close> bookkeeping is left out. \<^verbatim>\<open>BLE.send\<close> takes the message as text and
  returns False when the connection is unknown, down, or the write raises.
\<close>

record BLEConnection =
  is_connected :: bool
  uart_tx :: "string list"
  uart_write_fails :: bool

record BLE =
  connections :: "string \<rightharpoonup> BLEConnection"

definition send :: "BLE \<Rightarrow> string \<Rightarrow> string \<Rightarrow> bool \<times> BLE" where
  "send ble conn_id message =
     (case connections ble conn_id of
        None \<Rightarrow> (False, ble)
      | Some conn \<Rightarrow>
          if \<not> is_connected conn then (False, ble)
          else if uart_write_fails conn then (False, ble)
          else (True,
                ble\<lparr>connections := (connections ble)
                       (conn_id \<mapsto> conn\<lparr>uart_tx := uart_tx conn @ [message @ [EOT]]\<rparr>)\<rparr>))"

text \<open>What the last \<^verbatim>\<open>uart.write\<close> on a connection put on the wire.\<close>

definition last_written :: "BLE \<Rightarrow> string \<Rightarrow> string" where
  "last_written ble conn_id =
     (case connections ble conn_id of
        None \<Rightarrow> []
      | Some conn \<Rightarrow> if uart_tx conn = [] then [] else last (uart_tx conn))"























definition example_ble :: BLE where
  "example_ble =
     \<lparr>connections = [''secondary'' \<mapsto> \<lparr>is_connected = True, uart_tx = [], uart_write_fails = False\<rparr>]\<rparr>"

section \<open>Verified properties\<close>

subsection \<open>State machine\<close>

lemmas StateTrigger_defs =
  StateTrigger_CONNECTED_def StateTrigger_DISCONNECTED_def StateTrigger_START_SESSION_def
  StateTrigger_PAUSE_SESSION_def StateTrigger_RESUME_SESSION_def StateTrigger_STOP_SESSION_def
  StateTrigger_STOPPED_def StateTrigger_ERROR_def StateTrigger_EMERGENCY_STOP_def

lemma determine_next_state_absent:
  "spec_table (state m) trg = None \<Longrightarrow> determine_next_state m trg = state m"
  unfolding determine_next_state_def spec_table_def StateTrigger_defs Let_def
  by (auto split: if_splits)

text \<open>
  Claim C3. For every pair of current state and trigger that has no entry in the
  transition table, \<^verbatim>\<open>transition\<close> returns True and the current state is the same
  afterwards (and no observer is notified).
\<close>

theorem transition_absent_pair_noop:
  assumes "spec_table (state m) trg = None"
  shows "returned (transition m trg md) = True
       \<and> get_current_state (machine (transition m trg md)) = get_current_state m
       \<and> delivered (transition m trg md) = []"
  using determine_next_state_absent [OF assms]
  by (simp add: transition_def get_current_state_def Let_def)

theorem transition_absent_pair_noop_witness:
  "spec_table (state \<lparr>state = RUNNING, callbacks = [\<lambda>_. None]\<rparr>) ''CONNECTED'' = None
   \<and> returned (transition \<lparr>state = RUNNING, callbacks = [\<lambda>_. None]\<rparr> ''CONNECTED'' None) = True
   \<and> get_current_state
        (machine (transition \<lparr>state = RUNNING, callbacks = [\<lambda>_. None]\<rparr> ''CONNECTED'' None))
       = RUNNING"
proof -
  have h: "spec_table (state \<lparr>state = RUNNING, callbacks = [\<lambda>_. None]\<rparr>) ''CONNECTED'' = None"
    by (simp add: spec_table_def)
  show ?thesis
    using h transition_absent_pair_noop [OF h, of None]
    by (simp add: get_current_state_def)
qed

text \<open>
  Claim C10. \<^verbatim>\<open>transition\<close> returns True for every trigger string in every state, with
  any observers registered and any metadata: no call returns False.
\<close>

theorem transition_always_returns_True:
  "returned (transition m trg md) = True"
  by (simp add: transition_def Let_def)

theorem transition_always_returns_True_witness:
  "returned (transition \<lparr>state = PAUSED, callbacks = [\<lambda>_. Some ''boom'']\<rparr> ''no such trigger'' None)
     = True
   \<and> returned (transition \<lparr>state = IDLE, callbacks = []\<rparr> ''PAUSE_SESSION'' None) = True"
  using transition_always_returns_True
          [of "\<lparr>state = PAUSED, callbacks = [\<lambda>_. Some ''boom'']\<rparr>" "''no such trigger''" None]
        transition_always_returns_True [of "\<lparr>state = IDLE, callbacks = []\<rparr>" "''PAUSE_SESSION''" None]
  by simp

subsection \<open>Pattern generator\<close>

lemma next_raw_simps [simp]: "next_raw [] = (0, [])" "next_raw (x # xs) = (x, xs)"
  by (simp_all add: next_raw_def)

lemma shuffle_from_props:
  "k < length xs \<Longrightarrow> length (fst (shuffle_from k xs g)) = length xs \<and> set (fst (shuffle_from k xs g)) = set xs"
proof (induction k arbitrary: xs g)
  case 0 then show ?case by simp
next
  case (Suc k)
  obtain j g' where jg: "rng_randbelow (Suc k + 1) g = (j, g')" by (cases "rng_randbelow (Suc k + 1) g")
  have "j < Suc k + 1" using jg by (auto simp: rng_randbelow_def split: prod.splits)
  with Suc.prems have jl: "j < length xs" by simp
  let ?ys = "xs[Suc k := xs ! j, j := xs ! Suc k]"
  have "k < length ?ys" using Suc.prems by simp
  from Suc.IH[OF this, of g'] have "length (fst (shuffle_from k ?ys g')) = length xs \<and> set (fst (shuffle_from k ?ys g')) = set ?ys" by simp
  moreover have "set ?ys = set xs" using set_swap[of "Suc k" xs j] Suc.prems jl by simp
  ultimately show ?case using jg by simp
qed

lemma rng_shuffle_props: "length (fst (rng_shuffle xs g)) = length xs \<and> set (fst (rng_shuffle xs g)) = set xs"
proof (cases xs)
  case Nil then show ?thesis by (simp add: rng_shuffle_def)
next
  case (Cons a as)
  then show ?thesis unfolding rng_shuffle_def by (intro shuffle_from_props) simp
qed

lemma timing_loop_length: "timing_loop k ibi ja jp g = (ts, g') \<Longrightarrow> length ts = k"
proof (induction k arbitrary: g ts g')
  case 0 then show ?case by simp
next
  case (Suc k)
  show ?case
  proof (cases "jp > 0")
    case True
    obtain j g1 where u: "rng_uniform (- ja) ja g = (j, g1)" by (cases "rng_uniform (- ja) ja g")
    obtain rest g2 where r: "timing_loop k ibi ja jp g1 = (rest, g2)" by (cases "timing_loop k ibi ja jp g1")
    from Suc.IH [OF r] Suc.prems True u r show ?thesis by auto
  next
    case False
    obtain rest g2 where r: "timing_loop k ibi ja jp g = (rest, g2)" by (cases "timing_loop k ibi ja jp g")
    from Suc.IH [OF r] Suc.prems False r show ?thesis by auto
  qed
qed

lemma range_list_length: "length (range_list n) = nat n"
  by (simp add: range_list_def)

lemma range_list_set: "x \<in> set (range_list n) \<Longrightarrow> 0 \<le> x \<and> x < n"
  by (auto simp: range_list_def)

lemma Pattern_init_ok:
  "length l = length r \<Longrightarrow> length t = length l \<Longrightarrow>
   Pattern_init l r t b i = Inr \<lparr>left_sequence = l, right_sequence = r, timing_ms = t,
                burst_duration_ms = b, inter_burst_interval_ms = i\<rparr>"
  by (simp add: Pattern_init_def)

lemma in_range_shuffled:
  "list_all (\<lambda>x. 0 \<le> x \<and> x < n) (fst (rng_shuffle (range_list n) g))"
  using rng_shuffle_props [of "range_list n" g] range_list_set [of _ n]
  by (auto simp: list_all_iff)

lemma in_range_plain: "list_all (\<lambda>x. 0 \<le> x \<and> x < n) (range_list n)"
  using range_list_set [of _ n] by (auto simp: list_all_iff)

lemma grp_wf: "\<exists>p. generate_random_permutation n on off jp mirror g = Inr p \<and> pattern_wf n p"
proof -
  obtain left g1 where l: "rng_shuffle (range_list n) g = (left, g1)" by (cases "rng_shuffle (range_list n) g")
  obtain right g2 where r: "(if mirror then (left, g1) else rng_shuffle (range_list n) g1) = (right, g2)"
    by (cases "(if mirror then (left, g1) else rng_shuffle (range_list n) g1)")
  obtain timing g3 where t: "timing_loop (nat n) (4 * (on + off)) ((on + off) * (jp / 100) / 2) jp g2 = (timing, g3)"
    by (cases "timing_loop (nat n) (4 * (on + off)) ((on + off) * (jp / 100) / 2) jp g2")
  have ll: "length left = nat n" and lw: "list_all (\<lambda>x. 0 \<le> x \<and> x < n) left"
    using rng_shuffle_props [of "range_list n" g] in_range_shuffled [of n g] l
    by (simp_all add: range_list_length)
  have rl: "length right = nat n" and rw: "list_all (\<lambda>x. 0 \<le> x \<and> x < n) right"
    using r ll lw rng_shuffle_props [of "range_list n" g1] in_range_shuffled [of n g1]
    by (auto simp: range_list_length split: if_splits)
  have tl: "length timing = nat n" using timing_loop_length [OF t] .
  have "generate_random_permutation n on off jp mirror g
        = Pattern_init left right timing on (4 * (on + off))"
    using l r t by (simp add: generate_random_permutation_def Let_def)
  then show ?thesis using ll rl tl lw rw
    by (simp add: Pattern_init_ok pattern_wf_def)
qed

lemma gsp_wf: "\<exists>p. generate_sequential_pattern n on off jp mirror reverse g = Inr p \<and> pattern_wf n p"
proof -
  let ?seq = "if reverse then rev (range_list n) else range_list n"
  obtain timing g1 where t: "timing_loop (nat n) (4 * (on + off)) ((on + off) * (jp / 100) / 2) jp g = (timing, g1)"
    by (cases "timing_loop (nat n) (4 * (on + off)) ((on + off) * (jp / 100) / 2) jp g")
  have sl: "length ?seq = nat n" by (simp add: range_list_length)
  have sw: "list_all (\<lambda>x. 0 \<le> x \<and> x < n) ?seq" using in_range_plain [of n] by (simp add: list_all_iff)
  have tl: "length timing = nat n" using timing_loop_length [OF t] .
  have "generate_sequential_pattern n on off jp mirror reverse g
        = Pattern_init ?seq ?seq timing on (4 * (on + off))"
    using t by (simp add: generate_sequential_pattern_def Let_def)
  then show ?thesis using sl tl sw
    by (simp add: Pattern_init_ok pattern_wf_def)
qed

lemma gmp_wf: "\<exists>p. generate_mirrored_pattern n on off jp randomize g = Inr p \<and> pattern_wf n p"
proof -
  obtain seq g1 where s: "(if randomize then rng_shuffle (range_list n) g else (range_list n, g)) = (seq, g1)"
    by (cases "(if randomize then rng_shuffle (range_list n) g else (range_list n, g))")
  obtain timing g2 where t: "timing_loop (nat n) (4 * (on + off)) ((on + off) * (jp / 100) / 2) jp g1 = (timing, g2)"
    by (cases "timing_loop (nat n) (4 * (on + off)) ((on + off) * (jp / 100) / 2) jp g1")
  have sl: "length seq = nat n" and sw: "list_all (\<lambda>x. 0 \<le> x \<and> x < n) seq"
    using s rng_shuffle_props [of "range_list n" g] in_range_shuffled [of n g] in_range_plain [of n]
    by (auto simp: range_list_length split: if_splits)
  have tl: "length timing = nat n" using timing_loop_length [OF t] .
  have "generate_mirrored_pattern n on off jp randomize g
        = Pattern_init seq seq timing on (4 * (on + off))"
    using s t by (simp add: generate_mirrored_pattern_def Let_def)
  then show ?thesis using sl tl sw
    by (simp add: Pattern_init_ok pattern_wf_def)
qed

text \<open>
  Claim C1. For every \<open>num_fingers \<ge> 1\<close>, every timing, jitter and generator state, each
  of the three generators returns a Pattern (no \<^verbatim>\<open>ValueError\<close>) whose left sequence,
  right sequence and timing list have the same length and whose indices all lie in
  \<open>[0, num_fingers)\<close>.
\<close>

theorem generated_pattern_wf:
  assumes "1 \<le> n"
  shows "(\<exists>p. generate_random_permutation n on off jp mirror g = Inr p \<and> pattern_wf n p)
       \<and> (\<exists>p. generate_sequential_pattern n on off jp mirror reverse g = Inr p \<and> pattern_wf n p)
       \<and> (\<exists>p. generate_mirrored_pattern n on off jp randomize g = Inr p \<and> pattern_wf n p)"
  using grp_wf gsp_wf gmp_wf by blast

theorem generated_pattern_wf_witness:
  "(1::int) \<le> 5
   \<and> (\<exists>p. generate_random_permutation 5 100 67 23.5 False [3, 1, 4, 1, 5, 9, 2, 6] = Inr p
          \<and> pattern_wf 5 p)
   \<and> (\<exists>p. generate_sequential_pattern 5 100 67 0 True True [] = Inr p \<and> pattern_wf 5 p)
   \<and> (\<exists>p. generate_mirrored_pattern 5 100 67 23.5 True [7, 7, 7] = Inr p \<and> pattern_wf 5 p)"
proof -
  have h: "(1::int) \<le> 5" by simp
  show ?thesis
    using h generated_pattern_wf [OF h, of 100 67 "23.5" False "[3, 1, 4, 1, 5, 9, 2, 6]"]
          generated_pattern_wf [OF h, of 100 67 0 True "[]" True]
          generated_pattern_wf [OF h, of 100 67 "23.5" True "[7, 7, 7]" _ True]
    by blast
qed

lemma rng_random_range: "rng_random g = (r, g') \<Longrightarrow> 0 \<le> r \<and> r < 1"
proof -
  assume a: "rng_random g = (r, g')"
  obtain x g0 where n: "next_raw g = (x, g0)" by (cases "next_raw g")
  have r: "r = real (x mod 2 ^ 53) / 2 ^ 53" using a n by (simp add: rng_random_def)
  have "x mod 2 ^ 53 < 2 ^ 53" by simp
  then have "real (x mod 2 ^ 53) < 2 ^ 53" using of_nat_less_iff[of "x mod 2 ^ 53" "2 ^ 53", where ?'a = real] by simp
  then show ?thesis using r by simp
qed

lemma unit_draws_length: "length (unit_draws k g) = k"
  by (induction k arbitrary: g) (auto split: prod.splits)

lemma unit_draws_range: "r \<in> set (unit_draws k g) \<Longrightarrow> 0 \<le> r \<and> r < 1"
proof (induction k arbitrary: g)
  case 0 then show ?case by simp
next
  case (Suc k)
  obtain r0 g' where d: "rng_random g = (r0, g')" by (cases "rng_random g")
  from Suc.prems d have "r = r0 \<or> r \<in> set (unit_draws k g')" by simp
  then show ?case using rng_random_range [OF d] Suc.IH [of g'] by blast
qed

lemma timing_loop_no_jitter:
  "\<not> jp > 0 \<Longrightarrow> timing_loop k ibi ja jp g = (replicate k ibi, g)"
  by (induction k) simp_all

lemma timing_loop_jitter:
  "jp > 0 \<Longrightarrow> fst (timing_loop k ibi ja jp g) = map (jittered_interval ibi ja) (unit_draws k g)"
proof (induction k arbitrary: g)
  case 0 then show ?case by simp
next
  case (Suc k)
  obtain r g1 where d: "rng_random g = (r, g1)" by (cases "rng_random g")
  obtain rest g2 where t: "timing_loop k ibi ja jp g1 = (rest, g2)" by (cases "timing_loop k ibi ja jp g1")
  from Suc.IH [OF Suc.prems, of g1] t have "rest = map (jittered_interval ibi ja) (unit_draws k g1)" by simp
  then show ?case using Suc.prems d t
    by (simp add: rng_uniform_def jittered_interval_def)
qed

lemma timing_loop_cases:
  "(\<not> jp > 0 \<longrightarrow> fst (timing_loop k ibi ja jp g) = replicate k ibi)
   \<and> (jp > 0 \<longrightarrow> fst (timing_loop k ibi ja jp g) = map (jittered_interval ibi ja) (unit_draws k g))"
  using timing_loop_no_jitter [of jp k ibi ja g] timing_loop_jitter [of jp k ibi ja g] by simp

lemma jitter_amount_eq: "(on + off) * (jp / 100) / 2 = (on + off) * jp / (200::real)"
  by simp

lemma grp_timing:
  "\<exists>p. generate_random_permutation n on off jp mirror g = Inr p
     \<and> timing_ms p = fst (timing_loop (nat n) (4 * (on + off)) ((on + off) * jp / 200) jp
                            (rng_after_permutation n mirror g))"
proof -
  obtain left g1 where l: "rng_shuffle (range_list n) g = (left, g1)" by (cases "rng_shuffle (range_list n) g")
  obtain right g2 where r: "(if mirror then (left, g1) else rng_shuffle (range_list n) g1) = (right, g2)"
    by (cases "(if mirror then (left, g1) else rng_shuffle (range_list n) g1)")
  obtain timing g3 where t: "timing_loop (nat n) (4 * (on + off)) ((on + off) * (jp / 100) / 2) jp g2 = (timing, g3)"
    by (cases "timing_loop (nat n) (4 * (on + off)) ((on + off) * (jp / 100) / 2) jp g2")
  have ll: "length left = nat n"
    using rng_shuffle_props [of "range_list n" g] l by (simp add: range_list_length)
  have rl: "length right = nat n"
    using r ll rng_shuffle_props [of "range_list n" g1]
    by (auto simp: range_list_length split: if_splits)
  have tl: "length timing = nat n" using timing_loop_length [OF t] .
  have "generate_random_permutation n on off jp mirror g
        = Pattern_init left right timing on (4 * (on + off))"
    using l r t by (simp add: generate_random_permutation_def Let_def)
  then have "generate_random_permutation n on off jp mirror g
        = Inr \<lparr>left_sequence = left, right_sequence = right, timing_ms = timing,
                burst_duration_ms = on, inter_burst_interval_ms = 4 * (on + off)\<rparr>"
    using ll rl tl by (simp add: Pattern_init_ok)
  moreover have "timing = fst (timing_loop (nat n) (4 * (on + off)) ((on + off) * jp / 200) jp g2)"
    using t by (simp only: jitter_amount_eq fst_conv)
  moreover have "rng_after_permutation n mirror g = g2"
    using l r by (auto simp: rng_after_permutation_def split: if_splits)
  ultimately show ?thesis by simp
qed

lemma gsp_timing:
  "\<exists>p. generate_sequential_pattern n on off jp mirror reverse g = Inr p
     \<and> timing_ms p = fst (timing_loop (nat n) (4 * (on + off)) ((on + off) * jp / 200) jp g)"
proof -
  let ?seq = "if reverse then rev (range_list n) else range_list n"
  obtain timing g1 where t: "timing_loop (nat n) (4 * (on + off)) ((on + off) * (jp / 100) / 2) jp g = (timing, g1)"
    by (cases "timing_loop (nat n) (4 * (on + off)) ((on + off) * (jp / 100) / 2) jp g")
  have sl: "length ?seq = nat n" by (simp add: range_list_length)
  have tl: "length timing = nat n" using timing_loop_length [OF t] .
  have "generate_sequential_pattern n on off jp mirror reverse g
        = Pattern_init ?seq ?seq timing on (4 * (on + off))"
    using t by (simp add: generate_sequential_pattern_def Let_def)
  then have "generate_sequential_pattern n on off jp mirror reverse g
        = Inr \<lparr>left_sequence = ?seq, right_sequence = ?seq, timing_ms = timing,
                burst_duration_ms = on, inter_burst_interval_ms = 4 * (on + off)\<rparr>"
    using sl tl by (simp add: Pattern_init_ok)
  moreover have "timing = fst (timing_loop (nat n) (4 * (on + off)) ((on + off) * jp / 200) jp g)"
    using t by (simp only: jitter_amount_eq fst_conv)
  ultimately show ?thesis by simp
qed

lemma gmp_timing:
  "\<exists>p. generate_mirrored_pattern n on off jp randomize g = Inr p
     \<and> timing_ms p = fst (timing_loop (nat n) (4 * (on + off)) ((on + off) * jp / 200) jp
                            (rng_after_mirrored n randomize g))"
proof -
  obtain seq g1 where s: "(if randomize then rng_shuffle (range_list n) g else (range_list n, g)) = (seq, g1)"
    by (cases "(if randomize then rng_shuffle (range_list n) g else (range_list n, g))")
  obtain timing g2 where t: "timing_loop (nat n) (4 * (on + off)) ((on + off) * (jp / 100) / 2) jp g1 = (timing, g2)"
    by (cases "timing_loop (nat n) (4 * (on + off)) ((on + off) * (jp / 100) / 2) jp g1")
  have sl: "length seq = nat n"
    using s rng_shuffle_props [of "range_list n" g]
    by (auto simp: range_list_length split: if_splits)
  have tl: "length timing = nat n" using timing_loop_length [OF t] .
  have "generate_mirrored_pattern n on off jp randomize g
        = Pattern_init seq seq timing on (4 * (on + off))"
    using s t by (simp add: generate_mirrored_pattern_def Let_def)
  then have "generate_mirrored_pattern n on off jp randomize g
        = Inr \<lparr>left_sequence = seq, right_sequence = seq, timing_ms = timing,
                burst_duration_ms = on, inter_burst_interval_ms = 4 * (on + off)\<rparr>"
    using sl tl by (simp add: Pattern_init_ok)
  moreover have "timing = fst (timing_loop (nat n) (4 * (on + off)) ((on + off) * jp / 200) jp g1)"
    using t by (simp only: jitter_amount_eq fst_conv)
  moreover have "rng_after_mirrored n randomize g = g1"
    using s by (auto simp: rng_after_mirrored_def split: if_splits)
  ultimately show ?thesis by simp
qed

lemma timing_law_loop_nat:
  "timing_law n base J jp g (fst (timing_loop (nat n) base J jp g))"
  using timing_loop_cases [of jp "nat n" base J g] by (simp add: timing_law_def)

lemma five_Suc: "(5::nat) = Suc (Suc (Suc (Suc (Suc 0))))"
  by simp

lemma range_list_5: "range_list 5 = [0, 1, 2, 3, 4]"
  by (simp add: range_list_def upt_conv_Cons)

lemma timing_loop_5_zero_draws:
  "timing_loop 5 668 (167 / 2) 100 [] = ([584.5, 584.5, 584.5, 584.5, 584.5], [])"
  unfolding five_Suc by (simp add: rng_uniform_def rng_random_def)

lemma unit_draws_5_zero: "unit_draws 5 [] = [0, 0, 0, 0, 0]"
  unfolding five_Suc by (simp add: rng_random_def)

lemma sequential_5_full_jitter:
  "generate_sequential_pattern 5 100 67 100 True False [] =
     Inr \<lparr>left_sequence = [0, 1, 2, 3, 4], right_sequence = [0, 1, 2, 3, 4],
          timing_ms = [584.5, 584.5, 584.5, 584.5, 584.5],
          burst_duration_ms = 100, inter_burst_interval_ms = 668\<rparr>"
  by (simp add: generate_sequential_pattern_def range_list_5 timing_loop_5_zero_draws
        Pattern_init_def Let_def)

text \<open>
  Claim C2, as stated: the half-width of the jitter is \<open>J = base_interval \<times>
  jitter_percent / 200\<close>. With \<open>time_on_ms = 100\<close>, \<open>time_off_ms = 67\<close> and
  \<open>jitter_percent = 100\<close> the base interval is 668 and the stated \<open>J\<close> is 334; on unit
  draws 0 the stated rule gives intervals of 334 ms, the code gives 584.5 ms, since it
  takes the half-width from one on/off cycle (167 ms), not from the base interval.
\<close>

theorem generated_timing_claimed_J_counterexample:
  "\<not> timing_law 5 (spec_base_interval 100 67) (spec_jitter_amount 100 67 100) 100 []
       (timing_of (generate_sequential_pattern 5 100 67 100 True False []))"
  by (simp add: timing_law_def timing_of_def sequential_5_full_jitter unit_draws_5_zero
        jittered_interval_def spec_base_interval_def spec_jitter_amount_def)

text \<open>
  Claim C2, amended. Every generator returns a Pattern whose per-step timing values all
  equal the base interval \<open>4 \<times> (time_on_ms + time_off_ms)\<close> when \<open>jitter_percent\<close>
  is not positive, and otherwise equal, step by step, \<open>max(0, base + u)\<close> for the
  uniform draw \<open>u\<close> in \<open>[-J, +J]\<close> made from that step's own unit draw in \<open>[0, 1)\<close>, with
  \<open>J = (time_on_ms + time_off_ms) \<times> jitter_percent / 200\<close>. The unit draws are the
  generator's own, in order, from the state its shuffles leave.
\<close>

theorem generated_timing_law:
  "(\<exists>p. generate_random_permutation n on off jp mirror g = Inr p
        \<and> timing_law n (spec_base_interval on off) ((on + off) * jp / 200) jp
             (rng_after_permutation n mirror g) (timing_ms p))
   \<and> (\<exists>p. generate_sequential_pattern n on off jp mirror reverse g = Inr p
        \<and> timing_law n (spec_base_interval on off) ((on + off) * jp / 200) jp g (timing_ms p))
   \<and> (\<exists>p. generate_mirrored_pattern n on off jp randomize g = Inr p
        \<and> timing_law n (spec_base_interval on off) ((on + off) * jp / 200) jp
             (rng_after_mirrored n randomize g) (timing_ms p))
   \<and> list_all (\<lambda>r. 0 \<le> r \<and> r < 1) (unit_draws k g0)"
proof -
  have draws: "list_all (\<lambda>r. 0 \<le> r \<and> r < 1) (unit_draws k g0)"
    using unit_draws_range by (auto simp: list_all_iff)
  obtain p1 where a:
    "generate_random_permutation n on off jp mirror g = Inr p1"
    "timing_ms p1 = fst (timing_loop (nat n) (4 * (on + off)) ((on + off) * jp / 200) jp
                           (rng_after_permutation n mirror g))"
    using grp_timing by blast
  obtain p2 where b:
    "generate_sequential_pattern n on off jp mirror reverse g = Inr p2"
    "timing_ms p2 = fst (timing_loop (nat n) (4 * (on + off)) ((on + off) * jp / 200) jp g)"
    using gsp_timing by blast
  obtain p3 where c:
    "generate_mirrored_pattern n on off jp randomize g = Inr p3"
    "timing_ms p3 = fst (timing_loop (nat n) (4 * (on + off)) ((on + off) * jp / 200) jp
                           (rng_after_mirrored n randomize g))"
    using gmp_timing by blast
  have "timing_law n (spec_base_interval on off) ((on + off) * jp / 200) jp
          (rng_after_permutation n mirror g) (timing_ms p1)"
    unfolding a(2) spec_base_interval_def by (rule timing_law_loop_nat)
  moreover have "timing_law n (spec_base_interval on off) ((on + off) * jp / 200) jp g (timing_ms p2)"
    unfolding b(2) spec_base_interval_def by (rule timing_law_loop_nat)
  moreover have "timing_law n (spec_base_interval on off) ((on + off) * jp / 200) jp
          (rng_after_mirrored n randomize g) (timing_ms p3)"
    unfolding c(2) spec_base_interval_def by (rule timing_law_loop_nat)
  ultimately show ?thesis using a(1) b(1) c(1) draws by blast
qed

lemma shuffle_5_then_half:
  "rng_shuffle [0, 1, 2, 3, 4 :: int] [0, 0, 0, 0, x] = ([1, 2, 3, 4, 0], [x])"
proof -
  have "rng_shuffle [0, 1, 2, 3, 4 :: int] [0, 0, 0, 0, x]
          = shuffle_from (Suc (Suc (Suc (Suc 0)))) [0, 1, 2, 3, 4] [0, 0, 0, 0, x]"
    by (simp add: rng_shuffle_def)
  also have "\<dots> = ([1, 2, 3, 4, 0], [x])"
    by (simp add: rng_randbelow_def)
  finally show ?thesis .
qed

lemma unit_draws_half: "unit_draws 5 [4503599627370496] = [1 / 2, 0, 0, 0, 0]"
  unfolding five_Suc by (simp add: rng_random_def)

theorem generated_timing_law_witness:
  "timing_law 5 (spec_base_interval 100 67) ((100 + 67) * 100 / 200) 100 []
       (timing_of (generate_sequential_pattern 5 100 67 100 True False []))
   \<and> timing_of (generate_sequential_pattern 5 100 67 0 True False [])
       = [668, 668, 668, 668, 668]
   \<and> timing_of (generate_random_permutation 5 100 67 100 True [0, 0, 0, 0, 4503599627370496])
       = [668, 584.5, 584.5, 584.5, 584.5]"
proof -
  obtain p where p: "generate_sequential_pattern 5 100 67 100 True False [] = Inr p"
      "timing_law 5 (spec_base_interval 100 67) ((100 + 67) * 100 / 200) 100 [] (timing_ms p)"
    using generated_timing_law [of 5 100 67 100 True "[]" False True] by blast
  obtain q where q: "generate_sequential_pattern 5 100 67 0 True False [] = Inr q"
      "timing_law 5 (spec_base_interval 100 67) ((100 + 67) * 0 / 200) 0 [] (timing_ms q)"
    using generated_timing_law [of 5 100 67 0 True "[]" False True] by blast
  obtain r where r:
      "generate_random_permutation 5 100 67 100 True [0, 0, 0, 0, 4503599627370496] = Inr r"
      "timing_law 5 (spec_base_interval 100 67) ((100 + 67) * 100 / 200) 100
         (rng_after_permutation 5 True [0, 0, 0, 0, 4503599627370496]) (timing_ms r)"
    using generated_timing_law [of 5 100 67 100 True "[0, 0, 0, 0, 4503599627370496]" False True]
    by blast
  have "timing_ms q = [668, 668, 668, 668, 668]"
    using q(2) by (simp add: timing_law_def spec_base_interval_def five_Suc)
  moreover have "rng_after_permutation 5 True [0, 0, 0, 0, 4503599627370496] = [4503599627370496]"
    by (simp add: rng_after_permutation_def range_list_5 shuffle_5_then_half)
  then have "timing_ms r = [668, 584.5, 584.5, 584.5, 584.5]"
    using r(2)
    by (simp add: timing_law_def spec_base_interval_def unit_draws_half jittered_interval_def)
  ultimately show ?thesis using p q(1) r(1) by (simp add: timing_of_def)
qed

subsection \<open>Execution engine\<close>

lemma burst_inv_cong:
  "deactivate_callback e' = deactivate_callback e \<Longrightarrow> activate_callback e' = activate_callback e
   \<Longrightarrow> activation_start_time e' = activation_start_time e
   \<Longrightarrow> current_pattern e' = current_pattern e \<Longrightarrow> pattern_index e' = pattern_index e
   \<Longrightarrow> burst_inv e' q = burst_inv e q"
  by (simp add: burst_inv_def)

lemma burst_inv_idle:
  "activation_start_time e' = None \<Longrightarrow> deactivate_callback e' = deactivate_callback e
   \<Longrightarrow> activate_callback e' = activate_callback e \<Longrightarrow> burst_inv e q \<Longrightarrow> burst_inv e' q'"
  by (simp add: burst_inv_def)

lemma generate_next_pattern_inv:
  assumes "generate_next_pattern g e = (err, e')" "burst_inv e pending"
  shows "burst_inv e' pending"
proof -
  let ?gen = "(case pattern_config e of
           None \<Rightarrow> generate_random_permutation 5 100 67 23.5 True g
         | Some c \<Rightarrow>
             if pattern_type c = ''rndp'' then
               generate_random_permutation (cfg_num_fingers c) (cfg_time_on_ms c)
                 (cfg_time_off_ms c) (cfg_jitter_percent c) (cfg_mirror_pattern c) g
             else if pattern_type c = ''sequential'' then
               generate_sequential_pattern (cfg_num_fingers c) (cfg_time_on_ms c)
                 (cfg_time_off_ms c) (cfg_jitter_percent c) (cfg_mirror_pattern c) False g
             else if pattern_type c = ''mirrored'' then
               generate_mirrored_pattern (cfg_num_fingers c) (cfg_time_on_ms c)
                 (cfg_time_off_ms c) (cfg_jitter_percent c) True g
             else Inl ValueError)"
  show ?thesis
  proof (cases ?gen)
    case (Inl x)
    with assms(1) have "e' = e" by (simp add: generate_next_pattern_def)
    then show ?thesis using assms(2) by simp
  next
    case (Inr p)
    with assms(1) have "e' = e\<lparr>current_pattern := Some p, pattern_index := 0,
                       activation_start_time := None, waiting_for_interval := False,
                       interval_start_time := None\<rparr>" by (simp add: generate_next_pattern_def)
    then show ?thesis using burst_inv_idle [OF _ _ _ assms(2), of e'] by simp
  qed
qed

lemma start_session_inv:
  assumes "start_session d ptype ton toff jp nf mirror now g e = (evs, err, e')" "burst_inv e pending"
  shows "evs = [] \<and> burst_inv e' pending"
proof -
  let ?e1 = "e\<lparr>is_running := True, is_paused := False, should_stop := False,
                cycles_completed := 0, total_activations := 0, timing_drift_ms := 0,
                session_start_time := Some now, session_duration_sec := Some d,
                pattern_config := Some \<lparr>pattern_type = ptype, cfg_time_on_ms = ton,
                   cfg_time_off_ms = toff, cfg_jitter_percent = jp,
                   cfg_num_fingers = nf, cfg_mirror_pattern = mirror\<rparr>\<rparr>"
  have i1: "burst_inv ?e1 pending" using assms(2) burst_inv_cong [of ?e1 e pending] by simp
  obtain err1 e2 where g: "generate_next_pattern g ?e1 = (err1, e2)" by (cases "generate_next_pattern g ?e1")
  from assms(1) g have "evs = []" "e' = e2" by (simp_all add: start_session_def)
  then show ?thesis using generate_next_pattern_inv [OF g i1] by simp
qed

lemma consume_no_act: "\<not> list_ex is_activate evs \<Longrightarrow> list_all (\<lambda>x. case x of Deactivate i \<Rightarrow> False | _ \<Rightarrow> True) evs \<Longrightarrow> consume evs pending = Some pending"
  by (induction evs pending rule: consume.induct) auto

lemma execute_pattern_step_inv:
  assumes "execute_pattern_step p t2 t3 g e = (evs, err, e')" "burst_inv e pending" "current_pattern e = Some p"
  shows "\<exists>pending'. consume evs (if list_ex is_activate evs then [] else pending) = Some pending'
           \<and> burst_inv e' pending'"
proof (cases "pattern_index e \<ge> int (Pattern_len p)")
  case True
  let ?e1 = "e\<lparr>cycles_completed := cycles_completed e + 1\<rparr>"
  have i1: "burst_inv ?e1 pending" using assms(2) burst_inv_cong [of ?e1 e pending] by simp
  obtain err1 e2 where g: "generate_next_pattern g ?e1 = (err1, e2)" by (cases "generate_next_pattern g ?e1")
  from assms(1) True g have "e' = e2" "evs = (if on_cycle_complete e then [CycleComplete (cycles_completed e + 1)] else [])"
    by (auto simp: execute_pattern_step_def Let_def split: if_splits)
  then show ?thesis using generate_next_pattern_inv [OF g i1] by auto
next
  case False
  note nc = False
  show ?thesis
  proof (cases "waiting_for_interval e")
    case True
    with nc assms(1) have "evs = []" and "e' = e \<or> e' = e\<lparr>waiting_for_interval := False, interval_start_time := None\<rparr>"
      by (auto simp: execute_pattern_step_def split: sum.splits if_splits)
    then show ?thesis using assms(2) burst_inv_cong [of e' e pending] by auto
  next
    case False
    note nw = False
    show ?thesis
    proof (cases "activation_start_time e")
      case None
      show ?thesis
      proof (cases "get_finger_pair p (pattern_index e)")
        case (Inl x)
        with nc nw None assms(1) have "evs = []" "e' = e"
          by (simp_all add: execute_pattern_step_def)
        then show ?thesis using assms(2) by simp
      next
        case (Inr lr)
        obtain l r where lr: "lr = (l, r)" by (cases lr)
        from nc nw None Inr lr assms(1) have
          ev: "evs = (if send_command_callback e then
                      [SendCommand ''EXECUTE_BUZZ''
                         [(''left_finger'', l), (''right_finger'', r), (''amplitude'', 100)]]
                    else []) @ (if activate_callback e then [Activate l 100, Activate r 100] else [])"
          and e': "e' = e\<lparr>activation_start_time := Some t2, total_activations := total_activations e + 2\<rparr>"
          by (simp_all add: execute_pattern_step_def)
        show ?thesis
        proof (cases "activate_callback e")
          case True
          then have "consume evs (if list_ex is_activate evs then [] else pending) = Some [r, l]"
            using ev by simp
          moreover have "burst_inv e' [r, l]"
            using assms(2,3) Inr lr True unfolding e' burst_inv_def by simp
          ultimately show ?thesis by blast
        next
          case False
          then have nd: "\<not> deactivate_callback e" using assms(2) by (auto simp: burst_inv_def)
          have "consume evs (if list_ex is_activate evs then [] else pending) = Some pending"
            using ev False by simp
          moreover have "burst_inv e' pending"
            using nd False unfolding e' burst_inv_def by simp
          ultimately show ?thesis by blast
        qed
      qed
    next
      case (Some started)
      show ?thesis
      proof (cases "(t2 - started) * 1000 \<ge> burst_duration_ms p")
        case False
        with nc nw Some assms(1) have "evs = []" "e' = e"
          by (simp_all add: execute_pattern_step_def)
        then show ?thesis using assms(2) by simp
      next
        case True
        show ?thesis
        proof (cases "get_finger_pair p (pattern_index e)")
          case (Inl x)
          with nc nw Some True assms(1) have "evs = []" "e' = e"
            by (simp_all add: execute_pattern_step_def)
          then show ?thesis using assms(2) by simp
        next
          case (Inr lr)
          obtain l r where lr: "lr = (l, r)" by (cases lr)
          from nc nw Some True Inr lr assms(1) have
            ev: "evs = (if deactivate_callback e then [Deactivate l, Deactivate r] else [])"
            and e': "e' = e\<lparr>activation_start_time := None, waiting_for_interval := True,
                       interval_start_time := Some t3, pattern_index := pattern_index e + 1\<rparr>"
            by (simp_all add: execute_pattern_step_def)
          have inv': "\<And>q. burst_inv e' q" using assms(2) unfolding e' burst_inv_def by simp
          show ?thesis
          proof (cases "deactivate_callback e")
            case True
            then have "pending = [r, l]" using assms(2,3) Some Inr lr by (auto simp: burst_inv_def)
            then have "consume evs (if list_ex is_activate evs then [] else pending) = Some []"
              using ev True by simp
            then show ?thesis using inv' by blast
          next
            case False
            then have "consume evs (if list_ex is_activate evs then [] else pending) = Some pending"
              using ev by simp
            then show ?thesis using inv' by blast
          qed
        qed
      qed
    qed
  qed
qed

lemma update_inv:
  assumes "update t1 t2 t3 g e = (evs, err, e')" "burst_inv e pending"
  shows "\<exists>pending'. consume evs (if list_ex is_activate evs then [] else pending) = Some pending'
           \<and> burst_inv e' pending'"
proof (cases "is_running e \<and> \<not> is_paused e \<and> \<not> should_stop e
     \<and> \<not> (truthy (session_start_time e) \<and> truthy (session_duration_sec e)
              \<and> t1 - the (session_start_time e) \<ge> the (session_duration_sec e))
     \<and> (\<exists>p. current_pattern e = Some p \<and> Pattern_len p \<noteq> 0)")
  case True
  then obtain p where p: "current_pattern e = Some p" "Pattern_len p \<noteq> 0" by blast
  with True assms(1) have "execute_pattern_step p t2 t3 g e = (evs, err, e')"
    by (auto simp: update_def split: if_splits)
  from execute_pattern_step_inv [OF this assms(2) p(1)] show ?thesis .
next
  case False
  with assms(1) have "evs = []" and "e' = e \<or> e' = e\<lparr>is_running := False\<rparr> \<or> e' = stop e"
    by (auto simp: update_def split: if_splits option.splits)
  then show ?thesis using assms(2) burst_inv_cong [of e' e pending] by (auto simp: stop_def)
qed

lemma apply_call_inv:
  assumes "apply_call c e = (evs, err, e')" "burst_inv e pending"
  shows "\<exists>pending'. consume evs (if list_ex is_activate evs then [] else pending) = Some pending'
           \<and> burst_inv e' pending'"
proof (cases c)
  case (StartSession d ptype ton toff jp nf mirror now g)
  with assms(1) have "start_session d ptype ton toff jp nf mirror now g e = (evs, err, e')" by simp
  from start_session_inv [OF this assms(2)] show ?thesis by simp
next
  case (Update t1 t2 t3 g)
  with assms(1) have "update t1 t2 t3 g e = (evs, err, e')" by simp
  from update_inv [OF this assms(2)] show ?thesis .
next
  case Pause
  with assms burst_inv_cong [of e' e pending] show ?thesis by (auto simp: pause_def)
next
  case Resume
  with assms burst_inv_cong [of e' e pending] show ?thesis by (auto simp: resume_def)
next
  case Stop
  with assms burst_inv_cong [of e' e pending] show ?thesis by (auto simp: stop_def)
qed

lemma run_bursts_matched:
  "burst_inv e pending \<Longrightarrow> bursts_matched pending (fst (run cs e))"
proof (induction cs arbitrary: e pending)
  case Nil then show ?case by simp
next
  case (Cons c cs)
  obtain evs err e' where a: "apply_call c e = (evs, err, e')" by (cases "apply_call c e") auto
  obtain rest e'' where r: "run cs e' = (rest, e'')" by (cases "run cs e'")
  from apply_call_inv [OF a Cons.prems] obtain pending' where
    p: "consume evs (if list_ex is_activate evs then [] else pending) = Some pending'" "burst_inv e' pending'"
    by blast
  from Cons.IH [OF p(2)] r have "bursts_matched pending' rest" by simp
  then show ?case using a r p(1) by simp
qed

lemma engine_with_inv: "(deact \<longrightarrow> act) \<Longrightarrow> burst_inv (engine_with s act deact c) []"
  by (simp add: burst_inv_def engine_with_def TherapyEngine_init_def set_cycle_complete_callback_def
      set_deactivate_callback_def set_activate_callback_def set_send_command_callback_def)

lemma engine_with_fields:
  "engine_with s a d c =
     \<lparr>is_running = False, is_paused = False, should_stop = False,
      session_start_time = None, session_duration_sec = None, pattern_config = None,
      current_pattern = None, pattern_index = 0, activation_start_time = None,
      waiting_for_interval = False, interval_start_time = None,
      cycles_completed = 0, total_activations = 0, timing_drift_ms = 0,
      send_command_callback = s, activate_callback = a,
      deactivate_callback = d, on_cycle_complete = c\<rparr>"
  by (simp add: engine_with_def TherapyEngine_init_def set_cycle_complete_callback_def
      set_deactivate_callback_def set_activate_callback_def set_send_command_callback_def)

lemma sequential_1_no_jitter:
  "generate_sequential_pattern 1 100 67 0 True False [] = Inr one_finger_pattern"
  by (simp add: generate_sequential_pattern_def range_list_def Pattern_init_def Let_def
        one_finger_pattern_def)

lemma start_one_finger:
  "start_session d ''sequential'' 100 67 0 1 True 10 [] (engine_with False a de False)
     = ([], None, started_engine d a de)"
  by (simp add: start_session_def generate_next_pattern_def engine_with_fields
        sequential_1_no_jitter started_engine_def one_finger_config_def)


lemma one_finger_pair: "get_finger_pair one_finger_pattern 0 = Inr (0, 0)"
  by (simp add: get_finger_pair_def py_get_def one_finger_pattern_def)

lemma one_finger_len: "Pattern_len one_finger_pattern = 1"
  by (simp add: Pattern_len_def one_finger_pattern_def)

lemma one_finger_burst: "burst_duration_ms one_finger_pattern = 100"
  by (simp add: one_finger_pattern_def)

lemma first_update_one_finger:
  "d = 0 \<or> d > 1 \<Longrightarrow>
   update 11 11 11 [] (started_engine d a de)
     = ((if a then [Activate 0 100, Activate 0 100] else []), None,
        (started_engine d a de)\<lparr>activation_start_time := Some 11, total_activations := 2\<rparr>)"
  by (auto simp: update_def started_engine_def truthy_def execute_pattern_step_def
        one_finger_pair one_finger_len)

lemma second_update_one_finger:
  "d = 0 \<or> d > 2 \<Longrightarrow>
   update 12 12 12 [] ((started_engine d a de)\<lparr>activation_start_time := Some 11, total_activations := 2\<rparr>)
     = ((if de then [Deactivate 0, Deactivate 0] else []), None,
        (started_engine d a de)\<lparr>activation_start_time := None, total_activations := 2,
           waiting_for_interval := True, interval_start_time := Some 12, pattern_index := 1\<rparr>)"
  by (auto simp: update_def started_engine_def truthy_def execute_pattern_step_def
        one_finger_pair one_finger_len one_finger_burst)

lemma one_burst_trace:
  "fst (run one_burst_calls (engine_with False a de False)) =
     [[], (if a then [Activate 0 100, Activate 0 100] else []),
      (if de then [Deactivate 0, Deactivate 0] else [])]"
  unfolding one_burst_calls_def
  by (simp add: start_one_finger first_update_one_finger second_update_one_finger)

text \<open>
  Claim C7, as stated, for any callback configuration: with a \<^verbatim>\<open>deactivate\<close> callback
  installed and no \<^verbatim>\<open>activate\<close> callback, the engine calls \<^verbatim>\<open>deactivate(0)\<close> twice
  at the end of the first burst although \<^verbatim>\<open>activate\<close> was never called.
\<close>

theorem deactivate_without_activate_counterexample:
  "\<not> bursts_matched [] (fst (run one_burst_calls (engine_with False False True False)))"
  by (simp add: one_burst_trace)

text \<open>
  Claim C7, amended. In every execution of the engine (any sequence of
  \<^verbatim>\<open>start_session\<close>, \<^verbatim>\<open>update\<close>, \<^verbatim>\<open>pause\<close>, \<^verbatim>\<open>resume\<close> and \<^verbatim>\<open>stop\<close> calls, any
  clock readings and draws) started from a fresh engine on which an \<^verbatim>\<open>activate\<close>
  callback is installed whenever a \<^verbatim>\<open>deactivate\<close> callback is, and whose callbacks return
  normally, every \<^verbatim>\<open>deactivate\<close> call for an actuator is preceded by an unmatched
  \<^verbatim>\<open>activate\<close> call for the same actuator within the same burst.
\<close>

theorem deactivate_follows_activate:
  assumes "deactivate_cb \<longrightarrow> activate_cb"
  shows "bursts_matched [] (fst (run calls (engine_with send_cb activate_cb deactivate_cb cycle_cb)))"
  using run_bursts_matched [OF engine_with_inv [OF assms]] .

theorem deactivate_follows_activate_witness:
  "bursts_matched [] (fst (run one_burst_calls (engine_with False True True False)))
   \<and> fst (run one_burst_calls (engine_with False True True False))
       = [[], [Activate 0 100, Activate 0 100], [Deactivate 0, Deactivate 0]]"
proof -
  have h: "True \<longrightarrow> True" by simp
  show ?thesis
    using deactivate_follows_activate [OF h, of one_burst_calls False False]
    by (simp add: one_burst_trace)
qed

lemma elapsed_positive_duration_stops:
  assumes "is_running e" "\<not> is_paused e" "\<not> should_stop e"
    and "session_start_time e = Some s" "session_duration_sec e = Some d"
    and "s \<noteq> 0" "d \<noteq> 0" "t1 - s \<ge> d"
  shows "update t1 t2 t3 g e = ([], None, stop e)"
  using assms by (simp add: update_def truthy_def)

text \<open>
  Claim C4, on the code. An engine with \<^verbatim>\<open>activate\<close> and \<^verbatim>\<open>deactivate\<close> callbacks is
  started with \<^verbatim>\<open>duration_sec = 0\<close> (one finger, sequential, no jitter) at clock 10;
  the first \<^verbatim>\<open>update()\<close>, at clock 11, leaves it running and calls \<^verbatim>\<open>activate\<close> twice:
  the timeout test is skipped because the guard
  \<^verbatim>\<open>self._session_start_time and self._session_duration_sec\<close> is false for a duration
  of zero.
\<close>

theorem zero_duration_first_update_activates:
  "(case start_session 0 ''sequential'' 100 67 0 1 True 10 [] (engine_with False True True False) of
      (evs0, err0, e1) \<Rightarrow>
        (case update 11 11 11 [] e1 of
           (evs, err, e2) \<Rightarrow>
             err0 = None \<and> err = None \<and> is_running e2
             \<and> evs = [Activate 0 100, Activate 0 100]))"
proof -
  have a: "start_session 0 ''sequential'' 100 67 0 1 True 10 [] (engine_with False True True False)
             = ([], None, started_engine 0 True True)"
    by (rule start_one_finger)
  have b: "update 11 11 11 [] (started_engine 0 True True)
             = ([Activate 0 100, Activate 0 100], None,
                (started_engine 0 True True)\<lparr>activation_start_time := Some 11,
                                               total_activations := 2\<rparr>)"
    using first_update_one_finger [of 0 True True] by simp
  have "is_running ((started_engine 0 True True)\<lparr>activation_start_time := Some 11,
                                                  total_activations := 2\<rparr>)"
    by (simp add: started_engine_def)
  then show ?thesis
    by (simp only: a b prod.case simp_thms)
qed

subsection \<open>Synchronization protocol\<close>

lemma digit_char_cases:
  "n < 10 \<Longrightarrow> n \<in> {0, 1, 2, 3, 4, 5, 6, 7, 8, 9 :: nat}"
  by auto

lemma digit_char_props:
  assumes "n < 10"
  shows "is_digit (digit_char n)" "digit_val (digit_char n) = n" "\<not> is_space (digit_char n)"
        "digit_char n \<noteq> CHR '':''" "digit_char n \<noteq> CHR ''|''"
  using digit_char_cases [OF assms]
  by (auto simp: digit_char_def is_digit_def digit_val_def is_space_def)

lemma is_digit_props:
  "is_digit c \<Longrightarrow> \<not> is_space c \<and> c \<noteq> CHR '':'' \<and> c \<noteq> CHR ''|''"
  by (auto simp: is_digit_def is_space_def)

lemma int_space_is_space: "is_int_space c \<Longrightarrow> is_space c"
  by (auto simp: is_int_space_def is_space_def)

lemma str_nat_digits: "list_all is_digit (str_nat n)"
proof (induction n rule: str_nat.induct)
  case (1 n)
  show ?case
  proof (cases "n < 10")
    case True
    then show ?thesis by (subst str_nat.simps) (simp add: digit_char_props)
  next
    case False
    then have "list_all is_digit (str_nat (n div 10))" using 1 by simp
    moreover have "is_digit (digit_char (n mod 10))" by (simp add: digit_char_props)
    ultimately show ?thesis using False by (subst str_nat.simps) simp
  qed
qed

lemma str_nat_nonempty: "str_nat n \<noteq> []"
  by (subst str_nat.simps) simp

lemma parse_digits_all_digits:
  "list_all is_digit ds \<Longrightarrow>
   parse_digits acc ds = Some (foldl (\<lambda>a c. a * 10 + digit_val c) acc ds)"
  by (induction acc ds rule: parse_digits.induct) auto

lemma foldl_str_nat: "foldl (\<lambda>a c. a * 10 + digit_val c) 0 (str_nat n) = n"
proof (induction n rule: str_nat.induct)
  case (1 n)
  show ?case
  proof (cases "n < 10")
    case True
    then show ?thesis by (subst str_nat.simps) (simp add: digit_char_props)
  next
    case False
    then have "foldl (\<lambda>a c. a * 10 + digit_val c) 0 (str_nat (n div 10)) = n div 10"
      using 1 by simp
    then show ?thesis using False
      by (subst str_nat.simps) (simp add: digit_char_props)
  qed
qed

lemma parse_decimal_str_nat: "parse_decimal (str_nat n) = Some n"
proof -
  obtain c cs where s: "str_nat n = c # cs" using str_nat_nonempty [of n] by (cases "str_nat n") auto
  have d: "is_digit c" "list_all is_digit cs" using str_nat_digits [of n] s by simp_all
  have p: "parse_digits (digit_val c) cs = Some (foldl (\<lambda>a c. a * 10 + digit_val c) (digit_val c) cs)"
    using parse_digits_all_digits [OF d(2)] .
  have "foldl (\<lambda>a c. a * 10 + digit_val c) (digit_val c) cs
             = foldl (\<lambda>a c. a * 10 + digit_val c) 0 (str_nat n)"
    by (simp add: s)
  then have "foldl (\<lambda>a c. a * 10 + digit_val c) (digit_val c) cs = n"
    by (simp only: foldl_str_nat)
  then show ?thesis using d(1) s p by (simp add: parse_decimal_def)
qed

lemma strip_id:
  "s \<noteq> [] \<Longrightarrow> \<not> is_space (hd s) \<Longrightarrow> \<not> is_space (last s) \<Longrightarrow> list_all is_space w
   \<Longrightarrow> strip (s @ w) = s"
proof -
  assume a: "s \<noteq> []" "\<not> is_space (hd s)" "\<not> is_space (last s)" "list_all is_space w"
  have 1: "dropWhile is_space (s @ w) = s @ w" using a(1,2) by (cases s) simp_all
  have 2: "dropWhile is_space (rev w @ rev s) = dropWhile is_space (rev s)"
    using a(4) by (simp add: dropWhile_append list_all_iff)
  have 3: "dropWhile is_space (rev s) = rev s"
    using a(1,3) by (cases "rev s") (auto simp: last_rev hd_rev)
  show ?thesis unfolding strip_def 1 by (simp add: 2 3)
qed

lemma str_int_no_space: "list_all (\<lambda>c. \<not> is_space c \<and> c \<noteq> CHR '':'' \<and> c \<noteq> CHR ''|'') (str_int i)"
  using str_nat_digits is_digit_props
  by (auto simp: str_int_def list_all_iff is_space_def)

lemma str_int_nonempty: "str_int i \<noteq> []"
  by (simp add: str_int_def str_nat_nonempty)

lemma trim_id:
  assumes "s \<noteq> []" "\<not> P (hd s)" "\<not> P (last s)"
  shows "rev (dropWhile P (rev (dropWhile P s))) = s"
proof -
  have 1: "dropWhile P s = s" using assms(1,2) by (cases s) simp_all
  have 2: "dropWhile P (rev s) = rev s"
    using assms(1,3) by (cases "rev s") (auto simp: last_rev hd_rev)
  show ?thesis by (simp add: 1 2)
qed

lemma trim_sandwich:
  assumes "list_all P a" "list_all P w" "c \<noteq> []" "\<not> P (hd c)" "\<not> P (last c)"
  shows "rev (dropWhile P (rev (dropWhile P (a @ c @ w)))) = c"
proof -
  have 1: "dropWhile P (a @ c @ w) = c @ w"
    using assms(1,3,4) by (cases c) (simp_all add: dropWhile_append list_all_iff)
  have 2: "dropWhile P (rev (c @ w)) = dropWhile P (rev c)"
    using assms(2) by (simp add: dropWhile_append list_all_iff)
  have 3: "dropWhile P (rev c) = rev c"
    using assms(3,5) by (cases "rev c") (auto simp: last_rev hd_rev)
  show ?thesis by (simp only: 1 2 3 rev_rev_ident)
qed

lemma trim_decomp:
  assumes "rev (dropWhile P (rev (dropWhile P s))) = c" "c \<noteq> []"
  shows "\<exists>a w. s = a @ c @ w \<and> list_all P a \<and> list_all P w \<and> \<not> P (hd c) \<and> \<not> P (last c)"
proof -
  let ?u = "dropWhile P s"
  let ?r = "rev ?u"
  have c: "rev c = dropWhile P ?r" using assms(1) by auto
  have u: "?u = c @ rev (takeWhile P ?r)"
  proof -
    have "?r = takeWhile P ?r @ dropWhile P ?r" by simp
    then have "rev ?r = rev (dropWhile P ?r) @ rev (takeWhile P ?r)" by (metis rev_append)
    then show ?thesis using c by (metis rev_rev_ident)
  qed
  have s: "s = takeWhile P s @ c @ rev (takeWhile P ?r)"
    using u takeWhile_dropWhile_id [of P s] by simp
  have "?u \<noteq> []" using u assms(2) by (metis append_is_Nil_conv)
  then have "\<not> P (hd ?u)" by (rule hd_dropWhile)
  then have h: "\<not> P (hd c)" using u assms(2) by (metis hd_append2)
  have "dropWhile P ?r \<noteq> []" using c assms(2) by (metis rev_is_Nil_conv)
  then have "\<not> P (hd (dropWhile P ?r))" by (rule hd_dropWhile)
  then have l: "\<not> P (last c)" using c assms(2) by (metis hd_rev)
  have "list_all P (takeWhile P s)" "list_all P (rev (takeWhile P ?r))"
    by (auto simp: list_all_iff dest: set_takeWhileD)
  then show ?thesis using s h l by blast
qed

lemma int_strip_str_int: "int_strip (str_int i) = str_int i"
proof -
  have ne: "str_int i \<noteq> []" by (rule str_int_nonempty)
  have "\<not> is_space (hd (str_int i))" "\<not> is_space (last (str_int i))"
    using str_int_no_space [of i] ne by (auto simp: list_all_iff)
  then have "\<not> is_int_space (hd (str_int i))" "\<not> is_int_space (last (str_int i))"
    using int_space_is_space by blast+
  then show ?thesis unfolding int_strip_def using trim_id [OF ne] by simp
qed

lemma py_int_str_int: "py_int (str_int i) = Some i"
proof (cases "i < 0")
  case True
  then show ?thesis
    by (simp add: py_int_def int_strip_str_int) (simp add: str_int_def parse_decimal_str_nat)
next
  case False
  obtain c cs where s: "str_nat (nat i) = c # cs"
    using str_nat_nonempty [of "nat i"] by (cases "str_nat (nat i)") auto
  have "is_digit c" using str_nat_digits [of "nat i"] s by simp
  then have c: "c \<noteq> CHR ''-''" "c \<noteq> CHR ''+''" by (auto simp: is_digit_def)
  have "parse_decimal (c # cs) = Some (nat i)" using parse_decimal_str_nat [of "nat i"] s by simp
  then show ?thesis using False c s
    by (simp add: py_int_def int_strip_str_int) (simp add: str_int_def s)
qed

lemma coerce_int: "coerce (str_val (PInt i)) = PInt i"
  by (simp add: coerce_def py_int_str_int)

lemma coerce_str_val: "coerce (str_val v) = expected_value v"
  by (cases v) (simp_all add: coerce_def py_int_str_int)

lemma rstrip_id: "s = [] \<or> \<not> is_space (last s) \<Longrightarrow> rstrip s = s"
  by (cases "rev s") (auto simp: rstrip_def last_rev hd_rev)

lemma rstrip_subset: "set (rstrip s) \<subseteq> set s"
  using set_dropWhileD [of _ is_space "rev s"] by (auto simp: rstrip_def)

lemma rstrip_last: "\<not> ends_with_space (rstrip s)"
proof (cases "rstrip s = []")
  case True then show ?thesis by (simp add: ends_with_space_def)
next
  case False
  then have ne: "dropWhile is_space (rev s) \<noteq> []" by (simp add: rstrip_def)
  then have "\<not> is_space (hd (dropWhile is_space (rev s)))" by (rule hd_dropWhile)
  then show ?thesis using ne by (simp add: ends_with_space_def rstrip_def last_rev)
qed

lemma strip_prefix_rstrip:
  assumes "p \<noteq> []" "\<not> is_space (hd p)" "\<not> is_space (last p)" "list_all is_space w"
  shows "strip (p @ s @ w) = p @ rstrip s"
proof -
  have 1: "dropWhile is_space (p @ s @ w) = p @ s @ w" using assms(1,2) by (cases p) simp_all
  have 2: "dropWhile is_space (rev w @ rev s @ rev p) = dropWhile is_space (rev s @ rev p)"
    using assms(4) by (simp add: dropWhile_append list_all_iff)
  have 3: "dropWhile is_space (rev p) = rev p"
    using assms(1,3) by (cases "rev p") (auto simp: last_rev hd_rev)
  have 4: "dropWhile is_space (rev s @ rev p) = dropWhile is_space (rev s) @ rev p"
  proof (cases "\<forall>c \<in> set (rev s). is_space c")
    case True
    then have "dropWhile is_space (rev s) = []" by simp
    then show ?thesis using True 3 by (simp add: dropWhile_append)
  next
    case False
    then show ?thesis by (auto simp: dropWhile_append)
  qed
  have "strip (p @ s @ w) = rev (dropWhile is_space (rev w @ rev s @ rev p))"
    unfolding strip_def 1 by simp
  also have "\<dots> = rev (dropWhile is_space (rev s) @ rev p)" by (simp only: 2 4)
  also have "\<dots> = p @ rstrip s" by (simp add: rstrip_def)
  finally show ?thesis .
qed

lemma parse_digits_last: "parse_digits acc cs = Some n \<Longrightarrow> cs \<noteq> [] \<Longrightarrow> is_digit (last cs)"
  by (induction acc cs rule: parse_digits.induct) (auto split: if_splits)

lemma parse_decimal_last: "parse_decimal s = Some n \<Longrightarrow> s \<noteq> [] \<and> is_digit (last s)"
  using parse_digits_last by (cases s) (auto simp: parse_decimal_def split: if_splits)

lemma py_int_core:
  assumes "py_int s = Some n"
  shows "int_strip s \<noteq> [] \<and> is_digit (last (int_strip s))"
proof (cases "int_strip s")
  case Nil
  then show ?thesis using assms by (simp add: py_int_def)
next
  case (Cons c cs)
  consider (neg) m where "parse_decimal cs = Some m" "c = CHR ''-''"
    | (pos) m where "parse_decimal cs = Some m" "c = CHR ''+''"
    | (plain) m where "parse_decimal (c # cs) = Some m"
    using assms Cons by (auto simp: py_int_def split: if_splits)
  then show ?thesis
  proof cases
    case neg then show ?thesis using parse_decimal_last [of cs m] Cons by simp
  next
    case pos then show ?thesis using parse_decimal_last [of cs m] Cons by simp
  next
    case plain then show ?thesis using parse_decimal_last [of "c # cs" m] Cons by simp
  qed
qed

lemma py_int_rstrip:
  assumes "py_int s = Some n"
  shows "py_int (rstrip s) = Some n"
proof -
  let ?c = "int_strip s"
  have c: "?c \<noteq> []" "is_digit (last ?c)" using py_int_core [OF assms] by simp_all
  have ls: "\<not> is_space (last ?c)" using c(2) is_digit_props by blast
  obtain a w where d: "s = a @ ?c @ w" "list_all is_int_space a" "list_all is_int_space w"
      "\<not> is_int_space (hd ?c)" "\<not> is_int_space (last ?c)"
    using trim_decomp [of is_int_space s ?c, OF _ c(1)] unfolding int_strip_def by blast
  have w: "\<forall>x \<in> set (rev w). is_space x"
    using d(3) int_space_is_space by (auto simp: list_all_iff)
  have "dropWhile is_space (rev (a @ ?c @ w)) = dropWhile is_space (rev ?c @ rev a)"
    using w by (simp add: dropWhile_append)
  also have "\<dots> = rev ?c @ rev a"
    using c(1) ls by (cases "rev ?c") (auto simp: last_rev hd_rev)
  finally have "rstrip (a @ ?c @ w) = a @ ?c" by (simp add: rstrip_def)
  then have r: "rstrip s = a @ ?c @ []" using d(1) by simp
  have "int_strip (rstrip s) = ?c"
    unfolding r int_strip_def [of "a @ int_strip s @ []"]
    by (rule trim_sandwich [OF d(2) _ c(1) d(4,5)]) simp
  then show ?thesis using assms by (simp add: py_int_def)
qed

lemma coerce_rstrip:
  assumes "\<not> ends_with_space s \<or> py_int s \<noteq> None"
  shows "coerce (rstrip s) = coerce s"
proof (cases "py_int s")
  case None
  then have "s = [] \<or> \<not> is_space (last s)" using assms by (auto simp: ends_with_space_def)
  then show ?thesis by (simp add: rstrip_id)
next
  case (Some n)
  then show ?thesis using py_int_rstrip [OF Some] by (simp add: coerce_def)
qed

lemma dropWhile_no_sep: "sep \<notin> set a \<Longrightarrow> dropWhile (\<lambda>c. c \<noteq> sep) a = []"
  by (induction a) auto

lemma split_max_no_sep: "sep \<notin> set a \<Longrightarrow> split_max sep k a = [a]"
  by (cases k) (simp_all add: dropWhile_no_sep)

lemma dropWhile_sep: "sep \<notin> set a \<Longrightarrow> dropWhile (\<lambda>c. c \<noteq> sep) (a @ sep # rest) = sep # rest"
  by (induction a) auto

lemma takeWhile_sep: "sep \<notin> set a \<Longrightarrow> takeWhile (\<lambda>c. c \<noteq> sep) (a @ sep # rest) = a"
  by (induction a) auto

lemma split_max_step:
  "sep \<notin> set a \<Longrightarrow> split_max sep (Suc k) (a @ sep # rest) = a # split_max sep k rest"
  by (simp add: dropWhile_sep takeWhile_sep)

lemma join_length: "length parts \<le> Suc (length (join sep parts))"
  by (induction sep parts rule: join.induct) auto

lemma split_max_join:
  "parts \<noteq> [] \<Longrightarrow> list_all (\<lambda>p. sep \<notin> set p) parts \<Longrightarrow> length parts \<le> Suc k
   \<Longrightarrow> split_max sep k (join sep parts) = parts"
proof (induction sep parts arbitrary: k rule: join.induct)
  case (1 sep) then show ?case by simp
next
  case (2 sep x) then show ?case by (simp add: split_max_no_sep)
next
  case (3 sep x y ys)
  then obtain k' where k: "k = Suc k'" by (cases k) auto
  have "split_max sep k' (join sep (y # ys)) = y # ys" using 3 k by simp
  then show ?case using 3(3) k by (simp add: split_max_step del: split_max.simps)
qed

lemma split_on_join:
  "parts \<noteq> [] \<Longrightarrow> list_all (\<lambda>p. sep \<notin> set p) parts \<Longrightarrow> split_on sep (join sep parts) = parts"
  unfolding split_on_def by (rule split_max_join) (simp_all add: join_length)

lemma dict_set_fresh: "k \<notin> fst ` set d \<Longrightarrow> dict_set d k v = d @ [(k, v)]"
  by (induction d) auto

lemma pairs_loop_items:
  "distinct (map fst d) \<Longrightarrow> fst ` set acc \<inter> fst ` set d = {} \<Longrightarrow>
   pairs_loop (concat (map (\<lambda>(key, v). [key, str_val v]) d)) acc
     = acc @ map (\<lambda>(k, v). (k, coerce (str_val v))) d"
proof (induction d arbitrary: acc)
  case Nil then show ?case by simp
next
  case (Cons kv d)
  obtain k v where kv: "kv = (k, v)" by (cases kv)
  have fresh: "k \<notin> fst ` set acc" using Cons.prems(2) kv by auto
  have d: "distinct (map fst d)" using Cons.prems(1) by simp
  have disj: "fst ` set (acc @ [(k, coerce (str_val v))]) \<inter> fst ` set d = {}"
    using Cons.prems kv by auto
  show ?case
    using Cons.IH [OF d disj] kv by (simp add: dict_set_fresh [OF fresh])
qed

lemma flatten_length: "length (concat (map (\<lambda>(key, v). [key, str_val v]) d)) = 2 * length d"
  by (induction d) auto

lemma flatten_no_pipe:
  "list_all (\<lambda>(k, v). CHR ''|'' \<notin> set k \<and> CHR ''|'' \<notin> set (str_val v)) d \<Longrightarrow>
   list_all (\<lambda>p. CHR ''|'' \<notin> set p) (concat (map (\<lambda>(key, v). [key, str_val v]) d))"
  by (induction d) auto

lemma join_two_nonempty: "length parts \<ge> 2 \<Longrightarrow> join sep parts \<noteq> []"
proof -
  assume "length parts \<ge> 2"
  then obtain x y ys where "parts = x # y # ys"
    by (cases parts; cases "tl parts") auto
  then show ?thesis by simp
qed

lemma deserialize_serialize_data:
  assumes "d \<noteq> []" "distinct (map fst d)"
    "list_all (\<lambda>(k, v). CHR ''|'' \<notin> set k \<and> CHR ''|'' \<notin> set (str_val v)) d"
  shows "deserialize_data (serialize_data d) = Inr (map (\<lambda>(k, v). (k, coerce (str_val v))) d)"
proof -
  let ?flat = "concat (map (\<lambda>(key, v). [key, str_val v]) d)"
  have len: "length ?flat = 2 * length d" by (rule flatten_length)
  have ne: "?flat \<noteq> []" using assms(1) len by (cases d) auto
  have l2: "length ?flat \<ge> 2" using assms(1) len by (cases d) auto
  have s: "serialize_data d = join (CHR ''|'') ?flat" using assms(1) by (simp add: serialize_data_def)
  have sne: "serialize_data d \<noteq> []" unfolding s by (rule join_two_nonempty [OF l2])
  have sp: "split_on (CHR ''|'') (serialize_data d) = ?flat"
    unfolding s by (rule split_on_join [OF ne flatten_no_pipe [OF assms(3)]])
  have pl: "pairs_loop ?flat [] = map (\<lambda>(k, v). (k, coerce (str_val v))) d"
    using pairs_loop_items [OF assms(2), of "[]"] by simp
  show ?thesis
    using sne by (simp add: deserialize_data_def sp len pl Let_def)
qed

lemma join_snoc: "ps \<noteq> [] \<Longrightarrow> join sep (ps @ [p]) = join sep ps @ sep # p"
proof (induction ps)
  case Nil then show ?case by simp
next
  case (Cons a ps)
  show ?case
  proof (cases ps)
    case Nil then show ?thesis by simp
  next
    case (Cons b bs)
    then have "join sep (ps @ [p]) = join sep ps @ sep # p" using Cons.IH by simp
    then show ?thesis using Cons by simp
  qed
qed

lemma serialize_data_last:
  assumes "d \<noteq> []"
  shows "serialize_data d \<noteq> []
       \<and> last (serialize_data d)
           = (if str_val (snd (last d)) = [] then CHR ''|'' else last (str_val (snd (last d))))"
proof -
  obtain d' kv where d: "d = d' @ [kv]" using assms by (cases d rule: rev_cases) auto
  obtain k v where kv: "kv = (k, v)" by (cases kv)
  let ?f = "\<lambda>(key, v). [key, str_val v]"
  have flat: "concat (map ?f d) = (concat (map ?f d') @ [k]) @ [str_val v]"
    using d kv by simp
  have "serialize_data d = join (CHR ''|'') ((concat (map ?f d') @ [k]) @ [str_val v])"
    using assms flat by (simp add: serialize_data_def)
  also have "\<dots> = join (CHR ''|'') (concat (map ?f d') @ [k]) @ CHR ''|'' # str_val v"
    by (rule join_snoc) simp
  finally have "serialize_data d = join (CHR ''|'') (concat (map ?f d') @ [k]) @ CHR ''|'' # str_val v" .
  then show ?thesis using d kv by simp
qed

lemma serialize_data_snoc:
  "serialize_data (d' @ [(k, v)])
     = join (CHR ''|'') (concat (map (\<lambda>(key, v). [key, str_val v]) d') @ [k]) @ CHR ''|'' # str_val v"
proof -
  let ?f = "\<lambda>(key, v). [key, str_val v]"
  have "serialize_data (d' @ [(k, v)]) = join (CHR ''|'') ((concat (map ?f d') @ [k]) @ [str_val v])"
    by (simp add: serialize_data_def)
  also have "\<dots> = join (CHR ''|'') (concat (map ?f d') @ [k]) @ CHR ''|'' # str_val v"
    by (rule join_snoc) simp
  finally show ?thesis .
qed

lemma command_token_props:
  assumes "t \<in> set command_tokens"
  shows "enum_value t \<noteq> []" "\<not> is_space (hd (enum_value t))" "CHR '':'' \<notin> set (enum_value t)"
  using assms
  by (auto simp: command_tokens_def SYNC_ADJ_def SYNC_ADJ_START_def EXECUTE_BUZZ_def
        BUZZ_COMPLETE_def FIRST_SYNC_def ACK_SYNC_ADJ_def is_space_def)

lemma str_int_no_colon: "CHR '':'' \<notin> set (str_int i)"
  using str_int_no_space [of i] by (auto simp: list_all_iff)

lemma str_int_last: "\<not> is_space (last (str_int i))"
  using str_int_no_space [of i] str_int_nonempty [of i] by (auto simp: list_all_iff)

lemma deserialize_parts3:
  assumes "strip text = t @ CHR '':'' # s @ CHR '':'' # ts"
    and "CHR '':'' \<notin> set t" "CHR '':'' \<notin> set s" "CHR '':'' \<notin> set ts"
    and "py_int s = Some a" "py_int ts = Some b"
  shows "deserialize text = Inr \<lparr>sequence_id = a, timestamp = b,
                                 command_type = SyncCommandType t, data = []\<rparr>"
proof -
  have three: "(3::nat) = Suc (Suc (Suc 0))" by simp
  have "split_max (CHR '':'') 3 (strip text) = [t, s, ts]"
    unfolding assms(1) three
    by (simp add: split_max_step assms(2,3) split_max_no_sep [OF assms(4)] del: split_max.simps)
  then show ?thesis using assms(5,6) by (simp add: deserialize_def Let_def)
qed

lemma deserialize_parts4:
  assumes "strip text = t @ CHR '':'' # s @ CHR '':'' # ts @ CHR '':'' # d"
    and "CHR '':'' \<notin> set t" "CHR '':'' \<notin> set s" "CHR '':'' \<notin> set ts"
    and "py_int s = Some a" "py_int ts = Some b"
  shows "deserialize text =
           (case deserialize_data d of
              Inl e \<Rightarrow> Inl ValueError
            | Inr dd \<Rightarrow> Inr \<lparr>sequence_id = a, timestamp = b,
                              command_type = SyncCommandType t, data = dd\<rparr>)"
proof -
  have three: "(3::nat) = Suc (Suc (Suc 0))" by simp
  have "split_max (CHR '':'') 3 (strip text) = [t, s, ts, d]"
    unfolding assms(1) three
    by (simp add: split_max_step assms(2,3,4) del: split_max.simps) simp
  then show ?thesis using assms(5,6) by (simp add: deserialize_def Let_def split: sum.splits)
qed

lemma no_separators_pipe:
  "no_separators x \<Longrightarrow>
   list_all (\<lambda>(k, v). CHR ''|'' \<notin> set k \<and> CHR ''|'' \<notin> set (str_val v)) (data x)"
  by (auto simp: no_separators_def list_all_iff)

text \<open>What \<^verbatim>\<open>deserialize\<close> makes of a serialized command with data: the last value
  is read from its text without the whitespace that ends it.\<close>

lemma roundtrip_general:
  assumes ct: "command_type x \<in> set command_tokens"
    and pipes: "list_all (\<lambda>(k, v). CHR ''|'' \<notin> set k \<and> CHR ''|'' \<notin> set (str_val v)) (data x)"
    and dist: "distinct (map fst (data x))"
    and d: "data x = d' @ [(k, v)]"
  shows "deserialize (serialize x)
           = Inr \<lparr>sequence_id = sequence_id x, timestamp = timestamp x,
                  command_type = command_type x,
                  data = map (\<lambda>(k, v). (k, coerce (str_val v))) d'
                         @ [(k, coerce (rstrip (str_val v)))]\<rparr>"
proof -
  let ?t = "enum_value (command_type x)"
  let ?s = "str_int (sequence_id x)"
  let ?ts = "str_int (timestamp x)"
  let ?P = "join (CHR ''|'') (concat (map (\<lambda>(key, v). [key, str_val v]) d') @ [k])"
  let ?pre = "?t @ CHR '':'' # ?s @ CHR '':'' # ?ts @ CHR '':'' # ?P @ [CHR ''|'']"
  let ?d2 = "d' @ [(k, PStr (rstrip (str_val v)))]"
  note tp = command_token_props [OF ct]
  have lf: "list_all is_space [CHR 0x0A]" by (simp add: is_space_def)
  have ne: "data x \<noteq> []" using d by simp
  have ser: "serialize x = ?pre @ str_val v @ [CHR 0x0A]"
    using ne by (simp add: serialize_def d serialize_data_snoc)
  have hd: "\<not> is_space (hd ?pre)" using tp(1,2) by (cases ?t) auto
  have last: "\<not> is_space (last ?pre)" by (simp add: is_space_def)
  have "strip (serialize x) = ?pre @ rstrip (str_val v)"
    unfolding ser by (rule strip_prefix_rstrip [OF _ hd last lf]) simp
  also have "\<dots> = ?t @ CHR '':'' # ?s @ CHR '':'' # ?ts @ CHR '':'' # serialize_data ?d2"
    by (simp add: serialize_data_snoc)
  finally have st: "strip (serialize x)
      = ?t @ CHR '':'' # ?s @ CHR '':'' # ?ts @ CHR '':'' # serialize_data ?d2" .
  have pipes2: "list_all (\<lambda>(k, v). CHR ''|'' \<notin> set k \<and> CHR ''|'' \<notin> set (str_val v)) ?d2"
    using pipes rstrip_subset [of "str_val v"] unfolding d by auto
  have dist2: "distinct (map fst ?d2)" using dist unfolding d by simp
  have dd: "deserialize_data (serialize_data ?d2)
              = Inr (map (\<lambda>(k, v). (k, coerce (str_val v))) ?d2)"
    by (rule deserialize_serialize_data [OF _ dist2 pipes2]) simp
  have "deserialize (serialize x) =
         (case deserialize_data (serialize_data ?d2) of
            Inl e \<Rightarrow> Inl ValueError
          | Inr dd \<Rightarrow> Inr \<lparr>sequence_id = sequence_id x, timestamp = timestamp x,
                            command_type = SyncCommandType ?t, data = dd\<rparr>)"
    by (rule deserialize_parts4 [OF st tp(3) str_int_no_colon str_int_no_colon py_int_str_int py_int_str_int])
  then show ?thesis by (simp add: dd)
qed

lemma roundtrip_lemma:
  assumes ct: "command_type x \<in> set command_tokens"
    and pipes: "list_all (\<lambda>(k, v). CHR ''|'' \<notin> set k \<and> CHR ''|'' \<notin> set (str_val v)) (data x)"
    and dist: "distinct (map fst (data x))"
    and tail: "data x \<noteq> [] \<longrightarrow>
                 \<not> ends_with_space (str_val (snd (last (data x))))
                 \<or> py_int (str_val (snd (last (data x)))) \<noteq> None"
  shows "deserialize (serialize x) = Inr (roundtrip_expected x)"
proof -
  let ?t = "enum_value (command_type x)"
  let ?s = "str_int (sequence_id x)"
  let ?ts = "str_int (timestamp x)"
  note tp = command_token_props [OF ct]
  have lf: "list_all is_space [CHR 0x0A]" by (simp add: is_space_def)
  show ?thesis
  proof (cases "data x = []")
    case True
    let ?body = "?t @ CHR '':'' # ?s @ CHR '':'' # ?ts"
    have ser: "serialize x = ?body @ [CHR 0x0A]" using True by (simp add: serialize_def)
    have hd: "\<not> is_space (hd ?body)" using tp(1,2) by (cases ?t) auto
    have last: "\<not> is_space (last ?body)" using str_int_last [of "timestamp x"] str_int_nonempty [of "timestamp x"] by simp
    have st: "strip (serialize x) = ?body"
      unfolding ser by (rule strip_id [OF _ hd last lf]) simp
    have "deserialize (serialize x) = Inr \<lparr>sequence_id = sequence_id x, timestamp = timestamp x,
                                 command_type = SyncCommandType ?t, data = []\<rparr>"
      by (rule deserialize_parts3 [OF st tp(3) str_int_no_colon str_int_no_colon py_int_str_int py_int_str_int])
    then show ?thesis using True by (simp add: roundtrip_expected_def)
  next
    case False
    obtain d' kv where "data x = d' @ [kv]" using False by (cases "data x" rule: rev_cases) auto
    then obtain k v where d: "data x = d' @ [(k, v)]" by (cases kv) auto
    have "\<not> ends_with_space (str_val v) \<or> py_int (str_val v) \<noteq> None"
      using tail d by simp
    then have "coerce (rstrip (str_val v)) = expected_value v"
      using coerce_rstrip [of "str_val v"] by (simp add: coerce_str_val)
    then show ?thesis
      using roundtrip_general [OF ct pipes dist d]
      by (simp add: roundtrip_expected_def d coerce_str_val)
  qed
qed

text \<open>The condition on the last value is the only one: when the last value ends with
  whitespace and is not read as an integer, the round trip fails.\<close>

lemma roundtrip_tail_necessary:
  assumes ct: "command_type x \<in> set command_tokens"
    and pipes: "list_all (\<lambda>(k, v). CHR ''|'' \<notin> set k \<and> CHR ''|'' \<notin> set (str_val v)) (data x)"
    and dist: "distinct (map fst (data x))"
    and ne: "data x \<noteq> []"
    and sp: "ends_with_space (str_val (snd (last (data x))))"
    and ni: "py_int (str_val (snd (last (data x)))) = None"
  shows "deserialize (serialize x) \<noteq> Inr (roundtrip_expected x)"
proof -
  obtain d' kv where "data x = d' @ [kv]" using ne by (cases "data x" rule: rev_cases) auto
  then obtain k v where d: "data x = d' @ [(k, v)]" by (cases kv) auto
  have sv: "ends_with_space (str_val v)" "py_int (str_val v) = None" using sp ni d by simp_all
  then obtain s where v: "v = PStr s" using py_int_str_int by (cases v) auto
  have "rstrip s \<noteq> s" using sv(1) rstrip_last [of s] unfolding v by auto
  then have "coerce (rstrip s) \<noteq> PStr s" by (auto simp: coerce_def split: option.splits)
  moreover have "expected_value v = PStr s" using sv(2) v by simp
  ultimately have neq: "coerce (rstrip (str_val v)) \<noteq> expected_value v" using v by simp
  let ?R = "\<lparr>sequence_id = sequence_id x, timestamp = timestamp x,
             command_type = command_type x,
             data = map (\<lambda>(k, v). (k, coerce (str_val v))) d'
                    @ [(k, coerce (rstrip (str_val v)))]\<rparr>"
  show ?thesis
  proof
    assume "deserialize (serialize x) = Inr (roundtrip_expected x)"
    then have "roundtrip_expected x = ?R"
      using roundtrip_general [OF ct pipes dist d] by simp
    then have "data (roundtrip_expected x) = data ?R" by (rule arg_cong)
    then have "map (\<lambda>(k, v). (k, expected_value v)) d' @ [(k, expected_value v)]
                 = map (\<lambda>(k, v). (k, coerce (str_val v))) d' @ [(k, coerce (rstrip (str_val v)))]"
      by (simp add: roundtrip_expected_def d)
    then have "expected_value v = coerce (rstrip (str_val v))" by simp
    then show False using neq by simp
  qed
qed

lemma str_int_small: "str_int 0 = ''0''" "str_int 1 = ''1''" "str_int 2 = ''2''"
  "str_int 42 = ''42''" "str_int 50 = ''50''" "str_int 1000000 = ''1000000''"
  by (simp_all add: str_int_def str_nat.simps digit_char_def)

lemma serialize_trailing_space:
  "serialize trailing_space_command = ''EXECUTE_BUZZ:1:2:k|v '' @ [CHR 0x0A]"
  by (simp add: serialize_def trailing_space_command_def EXECUTE_BUZZ_def serialize_data_def
        str_int_small)

lemma strip_trailing_space:
  "strip (''EXECUTE_BUZZ:1:2:k|v '' @ [CHR 0x0A]) = ''EXECUTE_BUZZ:1:2:k|v''"
  by (simp add: strip_def is_space_def)

lemma py_int_1_2: "py_int ''1'' = Some 1" "py_int ''2'' = Some 2"
  using py_int_str_int [of 1] py_int_str_int [of 2] by (simp_all add: str_int_small)

lemma py_int_v: "py_int ''v'' = None" "py_int ''v '' = None"
  by (simp_all add: py_int_def int_strip_def is_int_space_def parse_decimal_def is_digit_def)

lemma py_int_separator: "py_int [CHR 0x1C, CHR ''5''] = None" "strip [CHR 0x1C, CHR ''5''] = ''5''"
  by (simp_all add: py_int_def int_strip_def is_int_space_def parse_decimal_def is_digit_def
        strip_def is_space_def)

lemma deserialize_data_kv: "deserialize_data ''k|v'' = Inr [(''k'', PStr ''v'')]"
  by (simp add: deserialize_data_def split_on_def coerce_def py_int_v)

lemma deserialize_trailing_space:
  "deserialize (serialize trailing_space_command)
     = Inr \<lparr>sequence_id = 1, timestamp = 2, command_type = EXECUTE_BUZZ,
            data = [(''k'', PStr ''v'')]\<rparr>"
proof -
  have st: "strip (serialize trailing_space_command)
              = ''EXECUTE_BUZZ'' @ CHR '':'' # ''1'' @ CHR '':'' # ''2'' @ CHR '':'' # ''k|v''"
    by (simp only: serialize_trailing_space strip_trailing_space) simp
  show ?thesis
    by (subst deserialize_parts4 [OF st _ _ _ py_int_1_2])
       (simp_all add: deserialize_data_kv EXECUTE_BUZZ_def)
qed

text \<open>
  Claim C5, as stated. The command \<^verbatim>\<open>EXECUTE_BUZZ\<close>, sequence 1, timestamp 2, data
  \<^verbatim>\<open>{"k": "v "}\<close> has no colon or pipe in its data; it serializes to
  \<^verbatim>\<open>EXECUTE_BUZZ:1:2:k|v \<close> plus the newline, and \<^verbatim>\<open>deserialize\<close> strips the
  message first, so the value comes back as \<^verbatim>\<open>"v"\<close>: not the value sent, and not an
  integer coercion of it.
\<close>

theorem roundtrip_trailing_space_counterexample:
  "no_separators trailing_space_command
   \<and> deserialize (serialize trailing_space_command)
       \<noteq> Inr (roundtrip_expected trailing_space_command)"
  by (simp add: deserialize_trailing_space)
     (simp add: no_separators_def roundtrip_expected_def trailing_space_command_def
        py_int_v EXECUTE_BUZZ_def)

text \<open>
  Claim C5, amended. For every SyncCommand \<open>x\<close> with one of the six command types,
  string keys and integer or string values, whose keys and values, written as strings,
  contain no colon or pipe, and whose last data value, written as a string, does not end
  with whitespace unless it parses as an integer: \<^verbatim>\<open>deserialize(x.serialize())\<close> returns
  a command equal to \<open>x\<close> in command type, sequence id, timestamp and data keys (in
  order), where each data value comes back as the integer its string form parses to, if
  it parses, and unchanged otherwise; integer values come back as themselves.
\<close>

theorem deserialize_serialize_roundtrip:
  assumes "command_type x \<in> set command_tokens"
    and "no_separators x"
    and "distinct (map fst (data x))"
    and "data x \<noteq> [] \<longrightarrow>
           \<not> ends_with_space (str_val (snd (last (data x))))
           \<or> py_int (str_val (snd (last (data x)))) \<noteq> None"
  shows "deserialize (serialize x) = Inr (roundtrip_expected x)
       \<and> sequence_id (roundtrip_expected x) = sequence_id x
       \<and> timestamp (roundtrip_expected x) = timestamp x
       \<and> command_type (roundtrip_expected x) = command_type x
       \<and> map fst (data (roundtrip_expected x)) = map fst (data x)
       \<and> (\<forall>k i. (k, PInt i) \<in> set (data x) \<longrightarrow> (k, PInt i) \<in> set (data (roundtrip_expected x)))"
proof -
  have "deserialize (serialize x) = Inr (roundtrip_expected x)"
    using roundtrip_lemma [OF assms(1) no_separators_pipe [OF assms(2)] assms(3,4)] .
  moreover have "map fst (data (roundtrip_expected x)) = map fst (data x)"
    by (simp add: roundtrip_expected_def case_prod_beta comp_def)
  moreover have "\<forall>k i. (k, PInt i) \<in> set (data x) \<longrightarrow> (k, PInt i) \<in> set (data (roundtrip_expected x))"
  proof (intro allI impI)
    fix k i assume "(k, PInt i) \<in> set (data x)"
    then have "(\<lambda>(k, v). (k, expected_value v)) (k, PInt i) \<in> set (data (roundtrip_expected x))"
      unfolding roundtrip_expected_def by (simp add: image_iff) force
    then show "(k, PInt i) \<in> set (data (roundtrip_expected x))"
      by simp
  qed
  ultimately show ?thesis by (simp add: roundtrip_expected_def)
qed

lemma example_hyps:
  "command_type example_command \<in> set command_tokens"
  "no_separators example_command"
  "distinct (map fst (data example_command))"
  "\<not> ends_with_space (str_val (snd (last (data example_command))))"
  by (simp_all add: example_command_def command_tokens_def no_separators_def ends_with_space_def
        str_int_small is_space_def)

lemma py_int_padded: "py_int ''5 '' = Some 5"
  by (simp add: py_int_def int_strip_def is_int_space_def parse_decimal_def is_digit_def
        digit_val_def)

lemma padded_hyps:
  "command_type padded_integer_command \<in> set command_tokens"
  "no_separators padded_integer_command"
  "distinct (map fst (data padded_integer_command))"
  "ends_with_space (str_val (snd (last (data padded_integer_command))))"
  "py_int (str_val (snd (last (data padded_integer_command)))) \<noteq> None"
  by (simp_all add: padded_integer_command_def command_tokens_def no_separators_def
        ends_with_space_def is_space_def py_int_padded)

theorem deserialize_serialize_roundtrip_witness:
  "command_type example_command \<in> set command_tokens
   \<and> no_separators example_command
   \<and> distinct (map fst (data example_command))
   \<and> \<not> ends_with_space (str_val (snd (last (data example_command))))
   \<and> deserialize (serialize example_command) = Inr example_command
   \<and> command_type padded_integer_command \<in> set command_tokens
   \<and> no_separators padded_integer_command
   \<and> distinct (map fst (data padded_integer_command))
   \<and> ends_with_space (str_val (snd (last (data padded_integer_command))))
   \<and> py_int (str_val (snd (last (data padded_integer_command)))) \<noteq> None
   \<and> deserialize (serialize padded_integer_command)
       = Inr (padded_integer_command\<lparr>data := [(''k'', PInt 5)]\<rparr>)"
proof -
  have 1: "roundtrip_expected example_command = example_command"
    by (simp add: roundtrip_expected_def example_command_def)
  have 2: "roundtrip_expected padded_integer_command
             = padded_integer_command\<lparr>data := [(''k'', PInt 5)]\<rparr>"
    by (simp add: roundtrip_expected_def padded_integer_command_def py_int_padded)
  have "deserialize (serialize example_command) = Inr example_command"
    using deserialize_serialize_roundtrip [of example_command] example_hyps 1 by simp
  moreover have "deserialize (serialize padded_integer_command)
                   = Inr (padded_integer_command\<lparr>data := [(''k'', PInt 5)]\<rparr>)"
    using deserialize_serialize_roundtrip [of padded_integer_command] padded_hyps(1,2,3,5) 2
    by simp
  ultimately show ?thesis using example_hyps padded_hyps by simp
qed

lemma count_sep_take_drop:
  "count_sep sep s = count_sep sep (dropWhile (\<lambda>c. c \<noteq> sep) s)"
  unfolding count_sep_def by (induction s) auto

lemma split_max_length: "length (split_max sep k s) = min k (count_sep sep s) + 1"
proof (induction k arbitrary: s)
  case 0 then show ?case by simp
next
  case (Suc k)
  show ?case
  proof (cases "dropWhile (\<lambda>c. c \<noteq> sep) s")
    case Nil
    then have c: "count_sep sep s = 0" using count_sep_take_drop [of sep s] by (simp add: count_sep_def)
    have "split_max sep (Suc k) s = [s]" by (simp only: split_max.simps Nil list.case)
    then show ?thesis using c by simp
  next
    case (Cons x rest)
    then have "x = sep" using hd_dropWhile [of "\<lambda>c. c \<noteq> sep" s] by auto
    then have c: "count_sep sep s = Suc (count_sep sep rest)"
      using count_sep_take_drop [of sep s] Cons by (simp add: count_sep_def)
    have "split_max sep (Suc k) s = takeWhile (\<lambda>c. c \<noteq> sep) s # split_max sep k rest"
      by (simp only: split_max.simps Cons list.case)
    then show ?thesis using c Suc.IH [of rest] by simp
  qed
qed

lemma count_sep_le_length: "count_sep sep s \<le> length s"
  by (simp add: count_sep_def)

lemma split_on_length: "length (split_on sep s) = count_sep sep s + 1"
  by (simp add: split_on_def split_max_length count_sep_le_length min_absorb2)

lemma filter_dropWhile_other:
  "\<not> P x \<Longrightarrow> filter (\<lambda>c. c = x) (dropWhile P s) = filter (\<lambda>c. c = x) s"
  by (induction s) auto

lemma count_sep_strip: "\<not> is_space sep \<Longrightarrow> count_sep sep (strip s) = count_sep sep s"
proof -
  assume n: "\<not> is_space sep"
  have "filter (\<lambda>c. c = sep) (strip s)
        = rev (filter (\<lambda>c. c = sep) (dropWhile is_space (rev (dropWhile is_space s))))"
    by (simp add: strip_def rev_filter)
  also have "\<dots> = rev (filter (\<lambda>c. c = sep) (rev (dropWhile is_space s)))"
    by (simp add: filter_dropWhile_other [of is_space sep, OF n])
  also have "\<dots> = filter (\<lambda>c. c = sep) (dropWhile is_space s)"
    by (simp add: rev_filter)
  also have "\<dots> = filter (\<lambda>c. c = sep) s" by (rule filter_dropWhile_other [of is_space sep, OF n])
  finally show ?thesis by (simp add: count_sep_def)
qed

lemma too_few_fields_parts:
  assumes "too_few_fields text"
  shows "length (split_max (CHR '':'') 3 (strip text)) < 3"
proof -
  have "count_sep (CHR '':'') text < 2" using assms by (simp add: too_few_fields_def split_on_length)
  moreover have "count_sep (CHR '':'') (strip text) = count_sep (CHR '':'') text"
    by (rule count_sep_strip) (simp add: is_space_def)
  ultimately show ?thesis by (simp add: split_max_length)
qed

lemma deserialize_data_odd:
  "d \<noteq> [] \<Longrightarrow> odd (length (split_on (CHR ''|'') d)) \<Longrightarrow> deserialize_data d = Inl ValueError"
  by (simp add: deserialize_data_def Let_def odd_iff_mod_2_eq_one)

lemma three: "(3::nat) = Suc (Suc (Suc 0))" by simp

lemma strip_plain2: "strip ''EXECUTE_BUZZ:1:2:'' = ''EXECUTE_BUZZ:1:2:''"
  by (simp add: strip_def is_space_def)

lemma split_empty_field:
  "split_max (CHR '':'') 3 ''EXECUTE_BUZZ:1:2:'' = [''EXECUTE_BUZZ'', ''1'', ''2'', '''']"
  unfolding three by simp

text \<open>
  Claim C8, as stated. The message \<^verbatim>\<open>EXECUTE_BUZZ:1:2:\<close> has four colon fields and an
  empty data field; \<^verbatim>\<open>''.split('|')\<close> is one token, an odd number, yet
  \<^verbatim>\<open>_deserialize_data\<close> returns the empty dictionary for an empty field and the
  command is produced.
\<close>

theorem empty_data_field_counterexample:
  "split_max (CHR '':'') 3 (strip ''EXECUTE_BUZZ:1:2:'') = [''EXECUTE_BUZZ'', ''1'', ''2'', '''']
   \<and> odd (length (split_on (CHR ''|'') ''''))
   \<and> deserialize ''EXECUTE_BUZZ:1:2:''
       = Inr \<lparr>sequence_id = 1, timestamp = 2, command_type = EXECUTE_BUZZ, data = []\<rparr>"
  by (simp add: strip_plain2 split_empty_field split_on_def deserialize_def deserialize_data_def
        py_int_1_2 EXECUTE_BUZZ_def)

text \<open>
  Claim C8, amended. \<^verbatim>\<open>SyncCommand.deserialize\<close> raises \<^verbatim>\<open>ValueError\<close> whenever the
  decoded message has fewer than 3 colon-separated fields, and whenever the fourth (data)
  field is not empty and splits into an odd number of pipe-delimited tokens. The function
  reads no state and writes none: on the error no command is produced.
\<close>

theorem deserialize_format_errors:
  assumes "too_few_fields text \<or> odd_data_tokens text"
  shows "deserialize text = Inl ValueError"
proof (cases "too_few_fields text")
  case True
  from too_few_fields_parts [OF this] show ?thesis by (simp add: deserialize_def Let_def)
next
  case False
  with assms have o: "odd_data_tokens text" by simp
  let ?parts = "split_max (CHR '':'') 3 (strip text)"
  have l: "length ?parts = 4" and d: "deserialize_data (?parts ! 3) = Inl ValueError"
    using o deserialize_data_odd [of "?parts ! 3"] by (simp_all add: odd_data_tokens_def Let_def)
  show ?thesis using l d
    by (simp add: deserialize_def Let_def split: option.splits)
qed

lemma split_two_fields: "split_on (CHR '':'') ''EXECUTE_BUZZ:1'' = [''EXECUTE_BUZZ'', ''1'']"
  by (simp add: split_on_def)

lemma strip_plain1: "strip ''EXECUTE_BUZZ:1:2:a|b|c'' = ''EXECUTE_BUZZ:1:2:a|b|c''"
  by (simp add: strip_def is_space_def)

lemma split_four_fields:
  "split_max (CHR '':'') 3 ''EXECUTE_BUZZ:1:2:a|b|c'' = [''EXECUTE_BUZZ'', ''1'', ''2'', ''a|b|c'']"
  unfolding three by simp

lemma split_abc: "split_on (CHR ''|'') ''a|b|c'' = [''a'', ''b'', ''c'']"
  by (simp add: split_on_def)

theorem deserialize_format_errors_witness:
  "too_few_fields ''EXECUTE_BUZZ:1'' \<and> deserialize ''EXECUTE_BUZZ:1'' = Inl ValueError
   \<and> odd_data_tokens ''EXECUTE_BUZZ:1:2:a|b|c''
   \<and> deserialize ''EXECUTE_BUZZ:1:2:a|b|c'' = Inl ValueError"
proof -
  have a: "too_few_fields ''EXECUTE_BUZZ:1''"
    by (simp add: too_few_fields_def split_two_fields)
  have b: "odd_data_tokens ''EXECUTE_BUZZ:1:2:a|b|c''"
    by (simp add: odd_data_tokens_def strip_plain1 split_four_fields split_abc)
  show ?thesis
    using a b deserialize_format_errors [of "''EXECUTE_BUZZ:1''"]
      deserialize_format_errors [of "''EXECUTE_BUZZ:1:2:a|b|c''"] by simp
qed

lemma serialize_data_spec: "d \<noteq> [] \<Longrightarrow> serialize_data d = spec_pairs d"
proof (induction d rule: spec_pairs.induct)
  case 1 then show ?case by simp
next
  case (2 k v) then show ?case by (simp add: serialize_data_def)
next
  case (3 k v kv rest)
  obtain k' v' where kv: "kv = (k', v')" by (cases kv)
  have "serialize_data (kv # rest) = spec_pairs (kv # rest)" using 3 by simp
  then show ?case using kv by (simp add: serialize_data_def)
qed

lemma serialize_spec_format: "serialize x = spec_wire_format x @ [CHR 0x0A]"
  by (simp add: serialize_def spec_wire_format_def serialize_data_spec)

lemma serialize_example:
  "serialize example_command = ''EXECUTE_BUZZ:42:1000000:finger|0|amplitude|50'' @ [CHR 0x0A]"
  by (simp add: serialize_def example_command_def EXECUTE_BUZZ_def serialize_data_def
        str_int_small)

lemma get_precise_time_1: "get_precise_time 1 = 1000000"
  by (simp add: get_precise_time_def)

lemma send_execute_buzz_example:
  "written (send_execute_buzz \<lparr>has_write = True, written = [], sent = []\<rparr> 42 0 50 1)
     = [serialize example_command]"
  by (simp add: send_execute_buzz_def get_precise_time_1 example_command_def Let_def)

lemma send_writes:
  assumes "connections ble cid = Some c" "is_connected c" "\<not> uart_write_fails c"
  shows "fst (send ble cid m) = True" "last_written (snd (send ble cid m)) cid = m @ [EOT]"
  using assms by (simp_all add: send_def last_written_def)

text \<open>
  Claim C6, as stated. \<^verbatim>\<open>send_execute_buzz\<close> with sequence 42, finger 0, amplitude 50
  at clock 1 s (timestamp 1000000) writes one buffer to the connection, the serialized
  command; it is not \<^verbatim>\<open>EXECUTE_BUZZ:42:1000000:finger|0|amplitude|50\<close> followed by
  0x04: \<^verbatim>\<open>serialize\<close> ends the message with a newline, and nothing on this path
  appends an EOT.
\<close>

theorem wire_terminator_counterexample:
  "written (send_execute_buzz \<lparr>has_write = True, written = [], sent = []\<rparr> 42 0 50 1)
     \<noteq> [''EXECUTE_BUZZ:42:1000000:finger|0|amplitude|50'' @ [EOT]]"
  by (simp add: send_execute_buzz_example serialize_example EOT_def)

text \<open>
  Claim C6, amended. \<^verbatim>\<open>SyncCommand.serialize\<close> produces exactly
  \<^verbatim>\<open><TYPE>:<sequence_id>:<timestamp_us>[:<k1>|<v1>|<k2>|<v2>...]\<close> followed by exactly
  one newline (0x0A); for \<^verbatim>\<open>EXECUTE_BUZZ\<close> with sequence 42, timestamp 1000000 and data
  \<^verbatim>\<open>{finger: 0, amplitude: 50}\<close> that is
  \<^verbatim>\<open>EXECUTE_BUZZ:42:1000000:finger|0|amplitude|50\<close> and one 0x0A. \<^verbatim>\<open>send_execute_buzz\<close>
  writes those bytes unchanged. The single 0x04 is what \<^verbatim>\<open>BLE.send\<close> appends to the
  text it is handed, on a connection that is up.
\<close>

theorem wire_format_newline:
  "serialize x = spec_wire_format x @ [CHR 0x0A]
   \<and> serialize example_command = ''EXECUTE_BUZZ:42:1000000:finger|0|amplitude|50'' @ [CHR 0x0A]
   \<and> written (send_execute_buzz \<lparr>has_write = True, written = w, sent = s\<rparr> seq finger amplitude now)
       = w @ [serialize \<lparr>sequence_id = seq, timestamp = get_precise_time now,
                          command_type = EXECUTE_BUZZ,
                          data = [(''finger'', PInt finger), (''amplitude'', PInt amplitude)]\<rparr>]
   \<and> (connections ble cid = Some c \<and> is_connected c \<and> \<not> uart_write_fails c
        \<longrightarrow> fst (send ble cid m) \<and> last_written (snd (send ble cid m)) cid = m @ [EOT])"
proof (intro conjI impI)
  show "serialize x = spec_wire_format x @ [CHR 0x0A]" by (rule serialize_spec_format)
  show "serialize example_command = ''EXECUTE_BUZZ:42:1000000:finger|0|amplitude|50'' @ [CHR 0x0A]"
    by (rule serialize_example)
  show "written (send_execute_buzz \<lparr>has_write = True, written = w, sent = s\<rparr> seq finger amplitude now)
       = w @ [serialize \<lparr>sequence_id = seq, timestamp = get_precise_time now,
                          command_type = EXECUTE_BUZZ,
                          data = [(''finger'', PInt finger), (''amplitude'', PInt amplitude)]\<rparr>]"
    by (simp add: send_execute_buzz_def Let_def)
next
  assume a: "connections ble cid = Some c \<and> is_connected c \<and> \<not> uart_write_fails c"
  then show "fst (send ble cid m)" using send_writes(1) [of ble cid c m] by simp
  from a show "last_written (snd (send ble cid m)) cid = m @ [EOT]"
    using send_writes(2) [of ble cid c m] by simp
qed

theorem wire_format_newline_witness:
  "serialize example_command = ''EXECUTE_BUZZ:42:1000000:finger|0|amplitude|50'' @ [CHR 0x0A]
   \<and> connections example_ble ''secondary''
        = Some \<lparr>is_connected = True, uart_tx = [], uart_write_fails = False\<rparr>
   \<and> last_written (snd (send example_ble ''secondary'' ''PING'')) ''secondary'' = ''PING'' @ [EOT]"
proof -
  have c: "connections example_ble ''secondary''
        = Some \<lparr>is_connected = True, uart_tx = [], uart_write_fails = False\<rparr>"
    by (simp add: example_ble_def)
  note t = wire_format_newline [of example_command "[]" "[]" 0 0 0 0 example_ble "''secondary''"
        "\<lparr>is_connected = True, uart_tx = [], uart_write_fails = False\<rparr>" "''PING''"]
  from t have "serialize example_command = ''EXECUTE_BUZZ:42:1000000:finger|0|amplitude|50'' @ [CHR 0x0A]"
    by blast
  moreover from t c have
    "last_written (snd (send example_ble ''secondary'' ''PING'')) ''secondary'' = ''PING'' @ [EOT]"
    by simp
  ultimately show ?thesis using c by blast
qed

subsection \<open>Message framing\<close>
























end
